theory Spec2Isabelle
  imports Main
begin

section \<open>The task store of crumb\<close>

text \<open>
  The task service keeps every task as one row of the SQLite table \<open>tasks\<close> and mutates
  it through prepared statements. This theory embeds the table, the statements the service
  runs on it, and the service's functions, and proves properties of them.
\<close>

subsection \<open>Data model\<close>

text \<open>
  \<^verbatim>\<open>status TEXT DEFAULT 'todo' CHECK(status IN ('todo','done'))\<close>, and
  \<^verbatim>\<open>status: 'todo' | 'done'\<close> in the interfaces.
\<close>

datatype status = Todo | Done

text \<open>
  The interface \<^verbatim>\<open>TaskRow\<close>: one row of the table. The column \<^verbatim>\<open>id\<close> is the field
  \<open>row_id\<close> here; \<open>parent_id\<close> is \<open>None\<close> for SQL NULL.
\<close>

record TaskRow =
  row_id :: string
  title :: string
  status :: status
  parent_id :: "string option"
  position :: int
  created_at :: string
  updated_at :: string

text \<open>The interface \<^verbatim>\<open>Task\<close> (without the optional \<^verbatim>\<open>children\<close>), as \<^verbatim>\<open>addTask\<close> returns it.\<close>

record Task =
  task_id :: string
  task_title :: string
  task_status :: status
  task_parentId :: "string option"
  task_position :: int

text \<open>The union \<^verbatim>\<open>TaskOperation\<close>; an absent or null optional field is \<open>None\<close>.\<close>

datatype TaskOperation =
    Add "string option" string "string option"
  | Delete string
  | Move string "string option"
  | Update string string
  | DoneOp string

text \<open>
  The exceptions a statement of better-sqlite3 can throw here: a violated primary key, a
  violated foreign key, a cascade of deletions nested too deeply (\<open>SQLITE_ERROR\<close>, "too
  many levels of trigger recursion"), and a failure of the storage itself (an I/O error, a
  full disk, a database locked by another process).
\<close>

datatype sqlite_error =
    SQLITE_CONSTRAINT_PRIMARYKEY
  | SQLITE_CONSTRAINT_FOREIGNKEY
  | SQLITE_ERROR
  | SQLITE_IOERR

text \<open>
  The state the service works on: the rows of the table in rowid order (the order in which
  \<^verbatim>\<open>SELECT * FROM tasks\<close> scans them; a new row gets the largest rowid), the module's
  \<^verbatim>\<open>undoStack\<close> (the array as it is: \<^verbatim>\<open>push\<close> appends, \<^verbatim>\<open>pop\<close> takes the last entry,
  \<^verbatim>\<open>shift\<close> drops the first), and the storage's behaviour: \<open>io_budget = Some n\<close> says that
  the next \<open>n\<close> statements run and every later one throws \<open>SQLITE_IOERR\<close>; \<open>None\<close>
  says that the storage never fails.
\<close>

record world =
  tasks :: "TaskRow list"
  undoStack :: "TaskRow list list"
  io_budget :: "nat option"

definition MAX_UNDO :: nat where
  "MAX_UNDO = 50"

subsection \<open>JavaScript values\<close>

text \<open>
  \<^verbatim>\<open>if (s)\<close> and \<^verbatim>\<open>!s\<close> on a \<^verbatim>\<open>string | null | undefined\<close>: null, undefined and
  the empty string are falsy.
\<close>

definition truthy :: "string option \<Rightarrow> bool" where
  "truthy s = (case s of None \<Rightarrow> False | Some x \<Rightarrow> x \<noteq> [])"

subsection \<open>The statements, on the rows of the table\<close>

text \<open>The parent relation of a table: \<open>(c, p)\<close> when a row with id \<open>c\<close> has \<open>parent_id = p\<close>.\<close>

definition parent_rel :: "TaskRow list \<Rightarrow> (string \<times> string) set" where
  "parent_rel t = set (concat (map (\<lambda>r. case parent_id r of None \<Rightarrow> [] | Some p \<Rightarrow> [(row_id r, p)]) t))"

text \<open>
  \<^verbatim>\<open>SELECT COALESCE(MAX(position), -1) + 1 AS pos FROM tasks WHERE parent_id IS ?\<close>
\<close>

definition select_next_position :: "string option \<Rightarrow> TaskRow list \<Rightarrow> int" where
  "select_next_position p t =
     (case map position (filter (\<lambda>r. parent_id r = p) t) of
        [] \<Rightarrow> - 1
      | x # xs \<Rightarrow> fold max xs x) + 1"

text \<open>
  \<^verbatim>\<open>INSERT INTO tasks (...) VALUES (...)\<close>: the primary key must be new, and at the end of
  the statement the row's \<open>parent_id\<close>, when not NULL, must be the id of a row of the table
  (\<^verbatim>\<open>parent_id TEXT REFERENCES tasks(id)\<close> with \<^verbatim>\<open>foreign_keys = ON\<close>; the constraint is
  immediate, so it is checked statement by statement, also inside a transaction).
\<close>

definition sql_insert :: "TaskRow \<Rightarrow> TaskRow list \<Rightarrow> sqlite_error + TaskRow list" where
  "sql_insert row t =
     (if row_id row \<in> set (map row_id t) then Inl SQLITE_CONSTRAINT_PRIMARYKEY
      else if (case parent_id row of None \<Rightarrow> False
               | Some p \<Rightarrow> p \<notin> set (map row_id (t @ [row])))
      then Inl SQLITE_CONSTRAINT_FOREIGNKEY
      else Inr (t @ [row]))"

text \<open>
  \<^verbatim>\<open>UPDATE tasks SET title = ?, updated_at = datetime('now') WHERE id = ?\<close> and the same for
  \<open>status\<close> and \<open>position\<close>. The bound id is \<open>None\<close> when the caller passes null, and then
  \<^verbatim>\<open>id = NULL\<close> holds for no row. The value of \<^verbatim>\<open>datetime('now')\<close> is the parameter \<open>now\<close>,
  one value for all the statements of a call.
\<close>

definition sql_update_title :: "string \<Rightarrow> string \<Rightarrow> string option \<Rightarrow> TaskRow list \<Rightarrow> TaskRow list" where
  "sql_update_title v now i t =
     map (\<lambda>r. if Some (row_id r) = i then r\<lparr>title := v, updated_at := now\<rparr> else r) t"

definition sql_update_status :: "status \<Rightarrow> string \<Rightarrow> string option \<Rightarrow> TaskRow list \<Rightarrow> TaskRow list" where
  "sql_update_status v now i t =
     map (\<lambda>r. if Some (row_id r) = i then r\<lparr>status := v, updated_at := now\<rparr> else r) t"

definition sql_update_position :: "int \<Rightarrow> string \<Rightarrow> string option \<Rightarrow> TaskRow list \<Rightarrow> TaskRow list" where
  "sql_update_position v now i t =
     map (\<lambda>r. if Some (row_id r) = i then r\<lparr>position := v, updated_at := now\<rparr> else r) t"

text \<open>
  \<^verbatim>\<open>UPDATE tasks SET parent_id = ?, position = ?, updated_at = datetime('now') WHERE id = ?\<close>:
  when a row is updated, its new \<open>parent_id\<close> must be NULL or the id of a row of the table.
\<close>

definition sql_update_parent ::
  "string option \<Rightarrow> int \<Rightarrow> string \<Rightarrow> string option \<Rightarrow> TaskRow list \<Rightarrow> sqlite_error + TaskRow list" where
  "sql_update_parent p pos now i t =
     (if (\<exists>r \<in> set t. Some (row_id r) = i) \<and>
         (case p of None \<Rightarrow> False | Some b \<Rightarrow> b \<notin> set (map row_id t))
      then Inl SQLITE_CONSTRAINT_FOREIGNKEY
      else Inr (map (\<lambda>r. if Some (row_id r) = i
                          then r\<lparr>parent_id := p, position := pos, updated_at := now\<rparr>
                          else r) t))"

text \<open>
  \<^verbatim>\<open>ON DELETE CASCADE\<close>: when a row is deleted, SQLite runs the action of the foreign
  key for it, a nested program that deletes every remaining row whose \<open>parent_id\<close> is the
  id of the deleted row, and so on for each row deleted that way. A program is not started
  when \<open>SQLITE_MAX_TRIGGER_DEPTH\<close> programs are already running (1000, the default of the
  library, which the service does not change): the statement then fails with
  \<open>SQLITE_ERROR\<close> and deletes nothing.

  \<open>cascade depth ks t\<close> is given the ids \<open>ks\<close> of the rows that were deleted at nesting
  level \<open>depth\<close> (0 for the statement of the service itself) and the remaining rows \<open>t\<close>.
  The action runs for every deleted row, whether it has children or not. SQLite deletes the
  rows depth first; a row has one \<open>parent_id\<close>, so it is deleted by the action of that one
  row, one level further in, and the rows can be taken level by level here.
\<close>

definition SQLITE_MAX_TRIGGER_DEPTH :: nat where
  "SQLITE_MAX_TRIGGER_DEPTH = 1000"

function cascade :: "nat \<Rightarrow> string list \<Rightarrow> TaskRow list \<Rightarrow> sqlite_error + TaskRow list" where
  "cascade depth ks t =
     (if ks = [] then Inr t
      else if depth \<ge> SQLITE_MAX_TRIGGER_DEPTH then Inl SQLITE_ERROR
      else cascade (Suc depth)
             (map row_id (filter (\<lambda>r. parent_id r \<in> Some ` set ks) t))
             (filter (\<lambda>r. parent_id r \<notin> Some ` set ks) t))"
  by pat_completeness auto
termination
  by (relation "measure (\<lambda>(depth, ks, t). SQLITE_MAX_TRIGGER_DEPTH - depth)") auto

declare cascade.simps [simp del]

text \<open>
  \<^verbatim>\<open>DELETE FROM tasks WHERE id = ?\<close>: the row of that id, when there is one, and the rows
  the cascade reaches from it; no row when the cascade fails.
\<close>

definition sql_delete :: "string option \<Rightarrow> TaskRow list \<Rightarrow> sqlite_error + TaskRow list" where
  "sql_delete i t =
     (if \<exists>r \<in> set t. Some (row_id r) = i
      then cascade 0 (map row_id (filter (\<lambda>r. Some (row_id r) = i) t))
                     (filter (\<lambda>r. Some (row_id r) \<noteq> i) t)
      else Inr t)"

text \<open>
  \<^verbatim>\<open>DELETE FROM tasks\<close>: with the foreign key on the table, SQLite first collects the rows
  to delete, then goes through them in rowid order and deletes each one that is still
  there, with its cascade; the statement fails as a whole when one of the cascades does.
  \<open>delete_each\<close> is that second pass over the ids collected.
\<close>

fun delete_each :: "string list \<Rightarrow> TaskRow list \<Rightarrow> sqlite_error + TaskRow list" where
  "delete_each [] t = Inr t"
| "delete_each (i # ids) t =
     (case sql_delete (Some i) t of Inl e \<Rightarrow> Inl e | Inr t' \<Rightarrow> delete_each ids t')"

definition sql_delete_all :: "TaskRow list \<Rightarrow> sqlite_error + TaskRow list" where
  "sql_delete_all t = delete_each (map row_id t) t"

text \<open>\<^verbatim>\<open>SELECT * FROM tasks WHERE id = ?\<close> with \<^verbatim>\<open>.get\<close>: the first such row, or undefined.\<close>

definition select_by_id :: "string option \<Rightarrow> TaskRow list \<Rightarrow> TaskRow option" where
  "select_by_id i t = find (\<lambda>r. Some (row_id r) = i) t"

text \<open>\<^verbatim>\<open>SELECT * FROM tasks WHERE parent_id IS ? ORDER BY position ASC\<close>, rows of equal
  position in rowid order.\<close>

definition select_siblings :: "string option \<Rightarrow> TaskRow list \<Rightarrow> TaskRow list" where
  "select_siblings p t = sort_key position (filter (\<lambda>r. parent_id r = p) t)"

text \<open>
  \<^verbatim>\<open>SELECT COUNT(*) as total, SUM(CASE WHEN status = 'done' THEN 1 ELSE 0 END) as done
  FROM tasks WHERE parent_id = ?\<close>: \<open>SUM\<close> over no row is NULL.
\<close>

definition select_child_stats :: "string \<Rightarrow> TaskRow list \<Rightarrow> nat \<times> nat option" where
  "select_child_stats p t =
     (let cs = filter (\<lambda>r. parent_id r = Some p) t
      in (length cs, if cs = [] then None else Some (length (filter (\<lambda>r. status r = Done) cs))))"

subsection \<open>Running a statement\<close>

text \<open>
  A call of the service maps the state to an outcome, \<open>Inl\<close> the exception thrown, and the
  state it leaves. A statement that the storage refuses throws and changes nothing; any
  other uses up one unit of a finite budget.
\<close>

definition tick :: "world \<Rightarrow> world" where
  "tick w = w\<lparr>io_budget := map_option (\<lambda>n. n - 1) (io_budget w)\<rparr>"

definition query :: "(TaskRow list \<Rightarrow> 'a) \<Rightarrow> world \<Rightarrow> (sqlite_error + 'a) \<times> world" where
  "query q w =
     (if io_budget w = Some 0 then (Inl SQLITE_IOERR, w)
      else (Inr (q (tasks w)), tick w))"

definition exec :: "(TaskRow list \<Rightarrow> sqlite_error + TaskRow list) \<Rightarrow> world \<Rightarrow> (sqlite_error + unit) \<times> world" where
  "exec stmt w =
     (if io_budget w = Some 0 then (Inl SQLITE_IOERR, w)
      else (case stmt (tasks w) of
              Inl e \<Rightarrow> (Inl e, tick w)
            | Inr t' \<Rightarrow> (Inr (), tick (w\<lparr>tasks := t'\<rparr>))))"

text \<open>Sequencing: an exception of the first part skips the rest.\<close>

definition and_then ::
  "(world \<Rightarrow> (sqlite_error + 'a) \<times> world) \<Rightarrow> ('a \<Rightarrow> world \<Rightarrow> (sqlite_error + 'b) \<times> world)
   \<Rightarrow> world \<Rightarrow> (sqlite_error + 'b) \<times> world" where
  "and_then m f w = (case m w of (Inl e, w') \<Rightarrow> (Inl e, w') | (Inr v, w') \<Rightarrow> f v w')"

text \<open>
  \<^verbatim>\<open>db.transaction(body)()\<close>: when the body throws, the table is rolled back to what it was
  at the start and the exception is thrown on; what the body did to the module's own
  variables stays.
\<close>

definition commit_or_rollback :: "world \<Rightarrow> (sqlite_error + 'a) \<times> world \<Rightarrow> (sqlite_error + 'a) \<times> world" where
  "commit_or_rollback w0 res =
     (case res of (Inl e, w') \<Rightarrow> (Inl e, w'\<lparr>tasks := tasks w0\<rparr>) | (Inr v, w') \<Rightarrow> (Inr v, w'))"

definition transaction :: "(world \<Rightarrow> (sqlite_error + 'a) \<times> world) \<Rightarrow> world \<Rightarrow> (sqlite_error + 'a) \<times> world" where
  "transaction body w = commit_or_rollback w (body w)"

definition result :: "'a \<Rightarrow> world \<Rightarrow> (sqlite_error + 'a) \<times> world" where
  "result v w = (Inr v, w)"

subsection \<open>Undo\<close>

text \<open>
  \<^verbatim>\<open>saveSnapshot\<close>: the snapshot is the result of \<^verbatim>\<open>SELECT * FROM tasks\<close>; it is pushed,
  and the first entry is shifted out when the stack has grown beyond \<open>MAX_UNDO\<close>.
\<close>

definition saveSnapshot :: "world \<Rightarrow> (sqlite_error + unit) \<times> world" where
  "saveSnapshot =
     and_then (query (\<lambda>t. t)) (\<lambda>snapshot w.
       let pushed = undoStack w @ [snapshot]
       in (Inr (), w\<lparr>undoStack := (if length pushed > MAX_UNDO then tl pushed else pushed)\<rparr>))"

text \<open>The loop of \<^verbatim>\<open>undo\<close> over the rows of the snapshot, one \<^verbatim>\<open>INSERT\<close> for each.\<close>

fun insert_rows :: "TaskRow list \<Rightarrow> world \<Rightarrow> (sqlite_error + unit) \<times> world" where
  "insert_rows [] = result ()"
| "insert_rows (row # rows) = and_then (exec (sql_insert row)) (\<lambda>_. insert_rows rows)"

text \<open>
  \<^verbatim>\<open>undo\<close>: false on an empty stack; otherwise the last snapshot is popped, and one
  transaction deletes every row and inserts the rows of the snapshot in its order.
\<close>

definition undo :: "world \<Rightarrow> (sqlite_error + bool) \<times> world" where
  "undo w =
     (if length (undoStack w) = 0 then (Inr False, w)
      else
        let snapshot = last (undoStack w);
            w1 = w\<lparr>undoStack := butlast (undoStack w)\<rparr>
        in and_then
             (transaction (and_then (exec sql_delete_all) (\<lambda>_. insert_rows snapshot)))
             (\<lambda>_. result True) w1)"

definition canUndo :: "world \<Rightarrow> bool" where
  "canUndo w = (length (undoStack w) > 0)"

definition undoDepth :: "world \<Rightarrow> nat" where
  "undoDepth w = length (undoStack w)"

subsection \<open>CRUD\<close>

text \<open>
  \<^verbatim>\<open>addTask(title, parentId)\<close>. The value of \<^verbatim>\<open>ulid()\<close> is the parameter \<open>new_id\<close>. The
  \<^verbatim>\<open>INSERT\<close> names the columns id, title, parent_id and position; the others take
  their defaults: \<open>status\<close> is \<^verbatim>\<open>'todo'\<close>, both timestamps are \<^verbatim>\<open>datetime('now')\<close>.
\<close>

definition addTask :: "string \<Rightarrow> string \<Rightarrow> string \<Rightarrow> string option \<Rightarrow> world \<Rightarrow> (sqlite_error + Task) \<times> world" where
  "addTask new_id now title_v parent =
     and_then (query (select_next_position parent)) (\<lambda>pos.
     and_then (exec (sql_insert \<lparr>row_id = new_id, title = title_v, status = Todo,
                                  parent_id = parent, position = pos,
                                  created_at = now, updated_at = now\<rparr>)) (\<lambda>_.
     result \<lparr>task_id = new_id, task_title = title_v, task_status = Todo,
             task_parentId = parent, task_position = pos\<rparr>))"

text \<open>
  \<^verbatim>\<open>updateTask(id, fields)\<close>, the two optional fields as two options. The id of this and
  of the next functions is a \<^verbatim>\<open>string\<close> in TypeScript; \<^verbatim>\<open>applyOperations\<close> passes what
  \<^verbatim>\<open>resolveId\<close> returns, which can be null, so the parameter is an option here.
\<close>

definition updateTask :: "string \<Rightarrow> string option \<Rightarrow> string option \<Rightarrow> status option \<Rightarrow> world \<Rightarrow> (sqlite_error + unit) \<times> world" where
  "updateTask now i title_f status_f =
     and_then (case title_f of None \<Rightarrow> result ()
               | Some v \<Rightarrow> exec (\<lambda>t. Inr (sql_update_title v now i t))) (\<lambda>_.
       case status_f of None \<Rightarrow> result ()
       | Some v \<Rightarrow> exec (\<lambda>t. Inr (sql_update_status v now i t)))"

definition deleteTask :: "string option \<Rightarrow> world \<Rightarrow> (sqlite_error + unit) \<times> world" where
  "deleteTask i = exec (sql_delete i)"

text \<open>
  \<^verbatim>\<open>autoCompleteParent(childId)\<close> calls itself on the parent; nothing bounds the recursion
  when the parent relation has a cycle, so a call that does not return is \<open>None\<close>.
  \<^verbatim>\<open>!row?.parent_id\<close> holds when there is no row and when its \<open>parent_id\<close> is null or empty.
\<close>

partial_function (option) autoCompleteParent ::
  "string \<Rightarrow> string option \<Rightarrow> world \<Rightarrow> ((sqlite_error + unit) \<times> world) option" where
  "autoCompleteParent now childId w =
     (case query (\<lambda>t. map_option parent_id (select_by_id childId t)) w of
        (Inl e, w1) \<Rightarrow> Some (Inl e, w1)
      | (Inr row, w1) \<Rightarrow>
          (case (case row of None \<Rightarrow> None | Some p \<Rightarrow> p) of
             None \<Rightarrow> Some (Inr (), w1)
           | Some parentId \<Rightarrow>
               if \<not> truthy (Some parentId) then Some (Inr (), w1)
               else
                 (case query (select_child_stats parentId) w1 of
                    (Inl e, w2) \<Rightarrow> Some (Inl e, w2)
                  | (Inr stats, w2) \<Rightarrow>
                      if fst stats > 0 \<and> Some (fst stats) = snd stats
                      then
                        (case exec (\<lambda>t. Inr (sql_update_status Done now (Some parentId) t)) w2 of
                           (Inl e, w3) \<Rightarrow> Some (Inl e, w3)
                         | (Inr u, w3) \<Rightarrow> autoCompleteParent now (Some parentId) w3)
                      else Some (Inr (), w2))))"

definition completeTask :: "string \<Rightarrow> string option \<Rightarrow> world \<Rightarrow> ((sqlite_error + unit) \<times> world) option" where
  "completeTask now i w =
     (case exec (\<lambda>t. Inr (sql_update_status Done now i t)) w of
        (Inl e, w1) \<Rightarrow> Some (Inl e, w1)
      | (Inr u, w1) \<Rightarrow> autoCompleteParent now i w1)"

definition moveTask :: "string \<Rightarrow> string option \<Rightarrow> string option \<Rightarrow> world \<Rightarrow> (sqlite_error + unit) \<times> world" where
  "moveTask now i newParentId =
     and_then (query (select_next_position newParentId)) (\<lambda>pos.
       exec (sql_update_parent newParentId pos now i))"

text \<open>\<^verbatim>\<open>Array.prototype.findIndex\<close>: the index of the first element that satisfies the
  predicate, or -1.\<close>

fun findIndex :: "('a \<Rightarrow> bool) \<Rightarrow> 'a list \<Rightarrow> int" where
  "findIndex P [] = - 1"
| "findIndex P (x # xs) =
     (if P x then 0 else (let k = findIndex P xs in if k < 0 then - 1 else k + 1))"

datatype direction = Up | Down

definition reorderTask :: "string \<Rightarrow> string \<Rightarrow> direction \<Rightarrow> world \<Rightarrow> (sqlite_error + bool) \<times> world" where
  "reorderTask now i dir =
     and_then (query (select_by_id (Some i))) (\<lambda>found.
       case found of
         None \<Rightarrow> result False
       | Some task \<Rightarrow>
           and_then (query (select_siblings (parent_id task))) (\<lambda>siblings.
             let idx = findIndex (\<lambda>s. row_id s = i) siblings in
             if idx < 0 then result False
             else
               let swapIdx = (if dir = Up then idx - 1 else idx + 1) in
               if swapIdx < 0 \<or> swapIdx \<ge> int (length siblings) then result False
               else
                 let other = siblings ! nat swapIdx in
                 and_then
                   (transaction
                     (and_then
                       (exec (\<lambda>t. Inr (sql_update_position (position other) now (Some (row_id task)) t)))
                       (\<lambda>_. exec (\<lambda>t. Inr (sql_update_position (position task) now (Some (row_id other)) t)))))
                   (\<lambda>_. result True)))"

datatype indent_direction = Indent | Outdent

definition indentTask :: "string \<Rightarrow> string \<Rightarrow> indent_direction \<Rightarrow> world \<Rightarrow> (sqlite_error + bool) \<times> world" where
  "indentTask now i dir =
     and_then (query (select_by_id (Some i))) (\<lambda>found.
       case found of
         None \<Rightarrow> result False
       | Some task \<Rightarrow>
           if dir = Outdent then
             (if \<not> truthy (parent_id task) then result False
              else
                and_then (query (select_by_id (parent_id task))) (\<lambda>parent.
                  case parent of
                    None \<Rightarrow> result False
                  | Some par \<Rightarrow>
                      and_then (moveTask now (Some i) (parent_id par)) (\<lambda>_. result True)))
           else
             and_then (query (select_siblings (parent_id task))) (\<lambda>siblings.
               let idx = findIndex (\<lambda>s. row_id s = i) siblings in
               if idx \<le> 0 then result False
               else
                 let prevSibling = siblings ! nat (idx - 1) in
                 and_then (moveTask now (Some i) (Some (row_id prevSibling))) (\<lambda>_. result True)))"

definition clearAllTasks :: "world \<Rightarrow> (sqlite_error + unit) \<times> world" where
  "clearAllTasks = exec sql_delete_all"

subsection \<open>Batch operations\<close>

text \<open>The closure \<^verbatim>\<open>resolveId\<close> of \<^verbatim>\<open>applyOperations\<close>, on the map as it is at the call.\<close>

definition resolveId :: "(string \<rightharpoonup> string) \<Rightarrow> string option \<Rightarrow> string option" where
  "resolveId idMap i =
     (if \<not> truthy i then None
      else case i of
             None \<Rightarrow> None
           | Some x \<Rightarrow> (case idMap x of None \<Rightarrow> Some x | Some real \<Rightarrow> Some real))"

text \<open>
  The loop of \<^verbatim>\<open>applyOperations\<close> over the operations. \<open>gen k\<close> is the value of the
  \<open>k\<close>-th call of \<^verbatim>\<open>ulid()\<close>, \<open>n\<close> counts the calls made so far.
\<close>

fun applyLoop ::
  "(nat \<Rightarrow> string) \<Rightarrow> string \<Rightarrow> TaskOperation list \<Rightarrow> nat \<Rightarrow> (string \<rightharpoonup> string) \<Rightarrow> world
   \<Rightarrow> ((sqlite_error + unit) \<times> world) option" where
  "applyLoop gen now [] n idMap w = Some (Inr (), w)"
| "applyLoop gen now (Add op_id op_title op_parent # ops) n idMap w =
     (case addTask (gen n) now op_title (resolveId idMap op_parent) w of
        (Inl e, w1) \<Rightarrow> Some (Inl e, w1)
      | (Inr task, w1) \<Rightarrow>
          applyLoop gen now ops (Suc n)
            (case op_id of
               None \<Rightarrow> idMap
             | Some x \<Rightarrow> if truthy (Some x) then idMap(x \<mapsto> task_id task) else idMap) w1)"
| "applyLoop gen now (Delete taskId # ops) n idMap w =
     (case deleteTask (resolveId idMap (Some taskId)) w of
        (Inl e, w1) \<Rightarrow> Some (Inl e, w1)
      | (Inr u, w1) \<Rightarrow> applyLoop gen now ops n idMap w1)"
| "applyLoop gen now (Move taskId newParentId # ops) n idMap w =
     (case moveTask now (resolveId idMap (Some taskId)) (resolveId idMap newParentId) w of
        (Inl e, w1) \<Rightarrow> Some (Inl e, w1)
      | (Inr u, w1) \<Rightarrow> applyLoop gen now ops n idMap w1)"
| "applyLoop gen now (Update taskId op_title # ops) n idMap w =
     (case updateTask now (resolveId idMap (Some taskId)) (Some op_title) None w of
        (Inl e, w1) \<Rightarrow> Some (Inl e, w1)
      | (Inr u, w1) \<Rightarrow> applyLoop gen now ops n idMap w1)"
| "applyLoop gen now (DoneOp taskId # ops) n idMap w =
     (case completeTask now (resolveId idMap (Some taskId)) w of
        None \<Rightarrow> None
      | Some (Inl e, w1) \<Rightarrow> Some (Inl e, w1)
      | Some (Inr u, w1) \<Rightarrow> applyLoop gen now ops n idMap w1)"

text \<open>\<^verbatim>\<open>applyOperations\<close>: the loop, from the empty map, inside one transaction.\<close>

definition applyOperations ::
  "(nat \<Rightarrow> string) \<Rightarrow> string \<Rightarrow> TaskOperation list \<Rightarrow> world \<Rightarrow> ((sqlite_error + unit) \<times> world) option" where
  "applyOperations gen now operations w =
     map_option (commit_or_rollback w) (applyLoop gen now operations 0 Map.empty w)"

declare autoCompleteParent.simps [code]

subsection \<open>Notions the properties are stated with\<close>

text \<open>\<open>undos k\<close>: \<open>k\<close> calls of \<^verbatim>\<open>undo()\<close> in a row, whatever each returns or throws.\<close>

fun undos :: "nat \<Rightarrow> world \<Rightarrow> world" where
  "undos 0 w = w"
| "undos (Suc k) w = undos k (snd (undo w))"

text \<open>
  The states the module can be in: it starts with an empty \<^verbatim>\<open>undoStack\<close> on whatever the
  table holds, and every exported function takes a state to the next one; the storage may
  change its behaviour at any time.
\<close>

inductive reachable :: "world \<Rightarrow> bool" where
  start: "undoStack w = [] \<Longrightarrow> reachable w"
| storage: "reachable w \<Longrightarrow> reachable (w\<lparr>io_budget := b\<rparr>)"
| saveSnapshot: "reachable w \<Longrightarrow> reachable (snd (saveSnapshot w))"
| undo: "reachable w \<Longrightarrow> reachable (snd (undo w))"
| addTask: "reachable w \<Longrightarrow> reachable (snd (addTask new_id now title_v parent w))"
| updateTask: "reachable w \<Longrightarrow> reachable (snd (updateTask now i title_f status_f w))"
| deleteTask: "reachable w \<Longrightarrow> reachable (snd (deleteTask i w))"
| completeTask: "reachable w \<Longrightarrow> completeTask now i w = Some y \<Longrightarrow> reachable (snd y)"
| moveTask: "reachable w \<Longrightarrow> reachable (snd (moveTask now i newParentId w))"
| reorderTask: "reachable w \<Longrightarrow> reachable (snd (reorderTask now j dir w))"
| indentTask: "reachable w \<Longrightarrow> reachable (snd (indentTask now j idir w))"
| clearAllTasks: "reachable w \<Longrightarrow> reachable (snd (clearAllTasks w))"
| applyOperations: "reachable w \<Longrightarrow> applyOperations gen now operations w = Some y \<Longrightarrow> reachable (snd y)"

text \<open>
  The propagation of \<^verbatim>\<open>complete\<close> as the specification words it. \<open>parent_of t c\<close> is the
  parent of the task \<open>c\<close>; \<open>fully_done t p\<close> says that \<open>p\<close> has at least one direct child and
  that all its direct children are done; \<open>mark_done now M t\<close> marks the tasks of \<open>M\<close> done.
  \<open>propagated now t a t'\<close>: the walk that is at the ancestor \<open>a\<close> (\<open>None\<close> above a root) on
  the table \<open>t\<close> ends with the table \<open>t'\<close>. It stops above a root and at an ancestor that is
  not fully done; a fully done ancestor is marked and the walk goes on to its parent.
\<close>

definition parent_of :: "TaskRow list \<Rightarrow> string \<Rightarrow> string option" where
  "parent_of t c = (case find (\<lambda>r. row_id r = c) t of None \<Rightarrow> None | Some r \<Rightarrow> parent_id r)"

definition fully_done :: "TaskRow list \<Rightarrow> string \<Rightarrow> bool" where
  "fully_done t p = ((\<exists>c \<in> set t. parent_id c = Some p)
                     \<and> (\<forall>c \<in> set t. parent_id c = Some p \<longrightarrow> status c = Done))"

definition mark_done :: "string \<Rightarrow> string set \<Rightarrow> TaskRow list \<Rightarrow> TaskRow list" where
  "mark_done now M t = map (\<lambda>r. if row_id r \<in> M then r\<lparr>status := Done, updated_at := now\<rparr> else r) t"

inductive propagated :: "string \<Rightarrow> TaskRow list \<Rightarrow> string option \<Rightarrow> TaskRow list \<Rightarrow> bool"
  for now :: string where
  at_root: "propagated now t None t"
| not_fully_done: "\<not> fully_done t p \<Longrightarrow> propagated now t (Some p) t"
| mark: "fully_done t p \<Longrightarrow> propagated now (mark_done now {p} t) (parent_of t p) t'
         \<Longrightarrow> propagated now t (Some p) t'"

code_pred (modes: i \<Rightarrow> i \<Rightarrow> i \<Rightarrow> o \<Rightarrow> bool, i \<Rightarrow> i \<Rightarrow> i \<Rightarrow> i \<Rightarrow> bool) propagated .

text \<open>
  \<open>below t i k\<close>: the tasks \<open>k\<close> levels below the task \<open>i\<close>, those from which \<open>k\<close> steps
  along \<open>parent_id\<close> lead to \<open>i\<close> without leaving \<open>i\<close> on the way (so that a task on a cycle
  through \<open>i\<close> has one level). \<open>below t i 0\<close> is \<open>i\<close> itself, \<open>below t i 1\<close> its children.
\<close>

definition below :: "TaskRow list \<Rightarrow> string \<Rightarrow> nat \<Rightarrow> string set" where
  "below t i k = {x. (x, i) \<in> (parent_rel t - {i} \<times> UNIV) ^^ k}"

text \<open>
  \<open>save_run ts w\<close>: one call of \<^verbatim>\<open>saveSnapshot\<close> for each table of \<open>ts\<close> in turn, the
  table of the store having become that table, by whatever mutations, when the call is made.
\<close>

fun save_run :: "TaskRow list list \<Rightarrow> world \<Rightarrow> world" where
  "save_run [] w = w"
| "save_run (t # ts) w = save_run ts (snd (saveSnapshot (w\<lparr>tasks := t\<rparr>)))"

text \<open>
  \<open>parents_first seen rows\<close>: the ids of \<open>rows\<close> are new and distinct, and every row comes
  after the row its \<open>parent_id\<close> names (or names itself, or a row of \<open>seen\<close>).
\<close>

fun parents_first :: "string list \<Rightarrow> TaskRow list \<Rightarrow> bool" where
  "parents_first seen [] = True"
| "parents_first seen (r # rs) =
     (row_id r \<notin> set seen
      \<and> (case parent_id r of None \<Rightarrow> True | Some p \<Rightarrow> p \<in> set (seen @ [row_id r]))
      \<and> parents_first (seen @ [row_id r]) rs)"

text \<open>
  The map from temporary ids to real ids after the operations \<open>ops\<close>, when the map was
  \<open>m\<close> and \<open>n\<close> ids had been generated before them: every \<^verbatim>\<open>add\<close> with a non-empty id
  binds it to the id generated for its task. \<open>count_adds\<close> counts the \<^verbatim>\<open>add\<close> operations.
\<close>

fun count_adds :: "TaskOperation list \<Rightarrow> nat" where
  "count_adds [] = 0"
| "count_adds (Add op_id op_title op_parent # ops) = Suc (count_adds ops)"
| "count_adds (Delete taskId # ops) = count_adds ops"
| "count_adds (Move taskId newParentId # ops) = count_adds ops"
| "count_adds (Update taskId op_title # ops) = count_adds ops"
| "count_adds (DoneOp taskId # ops) = count_adds ops"

fun idMap_after :: "(nat \<Rightarrow> string) \<Rightarrow> TaskOperation list \<Rightarrow> nat \<Rightarrow> (string \<rightharpoonup> string) \<Rightarrow> (string \<rightharpoonup> string)" where
  "idMap_after gen [] n m = m"
| "idMap_after gen (Add op_id op_title op_parent # ops) n m =
     idMap_after gen ops (Suc n)
       (case op_id of None \<Rightarrow> m | Some x \<Rightarrow> if x \<noteq> [] then m(x \<mapsto> gen n) else m)"
| "idMap_after gen (Delete taskId # ops) n m = idMap_after gen ops n m"
| "idMap_after gen (Move taskId newParentId # ops) n m = idMap_after gen ops n m"
| "idMap_after gen (Update taskId op_title # ops) n m = idMap_after gen ops n m"
| "idMap_after gen (DoneOp taskId # ops) n m = idMap_after gen ops n m"

subsection \<open>Example states\<close>

definition empty_world :: world where
  "empty_world = \<lparr>tasks = [], undoStack = [], io_budget = None\<rparr>"

text \<open>Two root tasks, added one after the other.\<close>

definition two_roots :: world where
  "two_roots = snd (addTask ''01B'' ''09:01'' ''Fix bug'' None
                 (snd (addTask ''01A'' ''09:00'' ''Write tests'' None empty_world)))"

text \<open>
  The second task is moved up and the first is then indented under it: the older row, which
  comes first in the table, is now the child of the younger one.
\<close>

definition child_first :: world where
  "child_first = snd (indentTask ''09:03'' ''01A'' Indent
                   (snd (reorderTask ''09:02'' ''01B'' Up two_roots)))"

text \<open>A task with one child, both open.\<close>

definition one_child :: world where
  "one_child = snd (addTask ''01C'' ''09:01'' ''Write tests'' (Some ''01P'')
                 (snd (addTask ''01P'' ''09:00'' ''Ship release'' None empty_world)))"

text \<open>A parent that is open, with one child done and one child open.\<close>

definition rowP :: TaskRow where
  "rowP = \<lparr>row_id = ''01P'', title = ''Ship release'', status = Todo, parent_id = None,
           position = 0, created_at = ''09:00'', updated_at = ''09:00''\<rparr>"

definition rowC1 :: TaskRow where
  "rowC1 = \<lparr>row_id = ''01C1'', title = ''Write tests'', status = Done, parent_id = Some ''01P'',
            position = 0, created_at = ''09:01'', updated_at = ''09:04''\<rparr>"

definition rowC2 :: TaskRow where
  "rowC2 = \<lparr>row_id = ''01C2'', title = ''Fix bug'', status = Todo, parent_id = Some ''01P'',
            position = 1, created_at = ''09:02'', updated_at = ''09:02''\<rparr>"

definition family :: world where
  "family = \<lparr>tasks = [rowP, rowC1, rowC2], undoStack = [], io_budget = None\<rparr>"

text \<open>A root with two children, the first of which has a child of its own; all open.\<close>

definition chain :: world where
  "chain = \<lparr>tasks =
     [\<lparr>row_id = ''01G'', title = ''Ship release'', status = Todo, parent_id = None,
        position = 0, created_at = ''09:00'', updated_at = ''09:00''\<rparr>,
      \<lparr>row_id = ''01P'', title = ''Write tests'', status = Todo, parent_id = Some ''01G'',
        position = 0, created_at = ''09:01'', updated_at = ''09:01''\<rparr>,
      \<lparr>row_id = ''01U'', title = ''Fix bug'', status = Todo, parent_id = Some ''01G'',
        position = 1, created_at = ''09:02'', updated_at = ''09:02''\<rparr>,
      \<lparr>row_id = ''01C'', title = ''Unit tests'', status = Todo, parent_id = Some ''01P'',
        position = 0, created_at = ''09:03'', updated_at = ''09:03''\<rparr>],
     undoStack = [], io_budget = None\<rparr>"

text \<open>
  A table of \<open>n\<close> open tasks, each but the first the only child of the one before it, as
  \<open>n\<close> calls of \<^verbatim>\<open>addTask\<close> build it, each under the task of the call before.
\<close>

definition chain_id :: "nat \<Rightarrow> string" where
  "chain_id k = replicate (Suc k) CHR ''1''"

definition chain_row :: "nat \<Rightarrow> TaskRow" where
  "chain_row k = \<lparr>row_id = chain_id k, title = ''Step'', status = Todo,
                  parent_id = (if k = 0 then None else Some (chain_id (k - 1))),
                  position = 0, created_at = ''09:00'', updated_at = ''09:00''\<rparr>"

definition deep_chain :: "nat \<Rightarrow> world" where
  "deep_chain n = \<lparr>tasks = map chain_row [0..<n], undoStack = [], io_budget = None\<rparr>"

section \<open>Properties\<close>

subsection \<open>Statements and sequencing\<close>

lemma tasks_tick [simp]: "tasks (tick w) = tasks w"
  by (simp add: tick_def)

lemma undoStack_tick [simp]: "undoStack (tick w) = undoStack w"
  by (simp add: tick_def)

lemma tick_no_faults [simp]: "io_budget w = None \<Longrightarrow> tick w = w"
  by (simp add: tick_def)

lemma query_no_faults: "io_budget w = None \<Longrightarrow> query q w = (Inr (q (tasks w)), w)"
  by (simp add: query_def)

lemma exec_no_faults:
  "io_budget w = None \<Longrightarrow>
   exec stmt w = (case stmt (tasks w) of Inl e \<Rightarrow> (Inl e, w) | Inr t' \<Rightarrow> (Inr (), w\<lparr>tasks := t'\<rparr>))"
  by (simp add: exec_def tick_def split: sum.splits)

lemma exec_Inr_tasks:
  "exec stmt w = (Inr u, w') \<Longrightarrow> stmt (tasks w) = Inr (tasks w')"
  by (auto simp: exec_def split: if_splits sum.splits)

lemma resolveId_nonempty:
  "x \<noteq> [] \<Longrightarrow> resolveId m (Some x) = Some (case m x of None \<Rightarrow> x | Some real \<Rightarrow> real)"
  by (simp add: resolveId_def truthy_def split: option.splits)

lemma resolveId_falsy: "resolveId m None = None" "resolveId m (Some []) = None"
  by (simp_all add: resolveId_def truthy_def)

lemmas run_defs = addTask_def updateTask_def deleteTask_def moveTask_def reorderTask_def
  indentTask_def clearAllTasks_def saveSnapshot_def undo_def completeTask_def
  and_then_def query_def exec_def result_def tick_def transaction_def commit_or_rollback_def
  select_next_position_def sql_insert_def sql_update_title_def sql_update_status_def
  sql_update_position_def sql_update_parent_def sql_delete_def sql_delete_all_def
  cascade.simps SQLITE_MAX_TRIGGER_DEPTH_def select_by_id_def
  select_siblings_def select_child_stats_def truthy_def Let_def MAX_UNDO_def

subsection \<open>The example states, evaluated\<close>

lemma two_roots_eq:
  "two_roots = \<lparr>tasks =
    [\<lparr>row_id = ''01A'', title = ''Write tests'', status = Todo,
        parent_id = None, position = 0, created_at = ''09:00'', updated_at = ''09:00''\<rparr>,
     \<lparr>row_id = ''01B'', title = ''Fix bug'', status = Todo,
        parent_id = None, position = 1, created_at = ''09:01'', updated_at = ''09:01''\<rparr>],
    undoStack = [], io_budget = None\<rparr>"
  by (simp add: two_roots_def empty_world_def run_defs)

lemma child_first_eq:
  "child_first = \<lparr>tasks =
     [\<lparr>row_id = ''01A'', title = ''Write tests'', status = Todo,
         parent_id = Some ''01B'', position = 0, created_at = ''09:00'', updated_at = ''09:03''\<rparr>,
      \<lparr>row_id = ''01B'', title = ''Fix bug'', status = Todo,
         parent_id = None, position = 0, created_at = ''09:01'', updated_at = ''09:02''\<rparr>],
     undoStack = [], io_budget = None\<rparr>"
  by (simp add: child_first_def two_roots_eq run_defs)

lemma one_child_eq:
  "one_child = \<lparr>tasks =
    [\<lparr>row_id = ''01P'', title = ''Ship release'', status = Todo,
        parent_id = None, position = 0, created_at = ''09:00'', updated_at = ''09:00''\<rparr>,
     \<lparr>row_id = ''01C'', title = ''Write tests'', status = Todo,
        parent_id = Some ''01P'', position = 0, created_at = ''09:01'', updated_at = ''09:01''\<rparr>],
    undoStack = [], io_budget = None\<rparr>"
  by (simp add: one_child_def empty_world_def run_defs)

subsection \<open>No function but \<^verbatim>\<open>saveSnapshot\<close> and \<^verbatim>\<open>undo\<close> writes the undo stack\<close>

lemma and_then_undoStack:
  assumes "\<And>w. undoStack (snd (m w)) = undoStack w"
    and "\<And>v w. undoStack (snd (f v w)) = undoStack w"
  shows "undoStack (snd (and_then m f w)) = undoStack w"
proof (cases "m w")
  case (Pair r w1)
  then have w1: "undoStack w1 = undoStack w" using assms(1)[of w] by simp
  show ?thesis
  proof (cases r)
    case (Inl e)
    then show ?thesis using Pair w1 by (simp add: and_then_def)
  next
    case (Inr v)
    then show ?thesis using Pair w1 assms(2)[of v w1] by (simp add: and_then_def)
  qed
qed

lemma exec_undoStack: "undoStack (snd (exec stmt w)) = undoStack w"
  by (simp add: exec_def split: sum.splits)

lemma query_undoStack: "undoStack (snd (query q w)) = undoStack w"
  by (simp add: query_def)

lemma result_undoStack: "undoStack (snd (result v w)) = undoStack w"
  by (simp add: result_def)

lemma transaction_undoStack:
  assumes "\<And>w. undoStack (snd (body w)) = undoStack w"
  shows "undoStack (snd (transaction body w)) = undoStack w"
  using assms[of w]
  by (cases "body w") (auto simp: transaction_def commit_or_rollback_def split: sum.splits)

lemma insert_rows_undoStack: "undoStack (snd (insert_rows rows w)) = undoStack w"
  by (induction rows arbitrary: w)
     (simp_all add: result_undoStack and_then_undoStack exec_undoStack)

lemma addTask_undoStack: "undoStack (snd (addTask new_id now ttl parent w)) = undoStack w"
  unfolding addTask_def
  by (intro and_then_undoStack query_undoStack exec_undoStack result_undoStack)

lemma updateTask_undoStack: "undoStack (snd (updateTask now i tf sf w)) = undoStack w"
  unfolding updateTask_def
  by (intro and_then_undoStack) (auto simp: exec_undoStack result_undoStack split: option.splits)

lemma deleteTask_undoStack: "undoStack (snd (deleteTask i w)) = undoStack w"
  by (simp add: deleteTask_def exec_undoStack)

lemma moveTask_undoStack: "undoStack (snd (moveTask now i p w)) = undoStack w"
  unfolding moveTask_def
  by (intro and_then_undoStack query_undoStack exec_undoStack)

lemma clearAllTasks_undoStack: "undoStack (snd (clearAllTasks w)) = undoStack w"
  by (simp add: clearAllTasks_def exec_undoStack)

lemma reorderTask_undoStack: "undoStack (snd (reorderTask now i dir w)) = undoStack w"
  unfolding reorderTask_def
  by (intro and_then_undoStack query_undoStack)
     (auto simp: Let_def result_undoStack split: option.splits
           intro!: and_then_undoStack transaction_undoStack exec_undoStack query_undoStack result_undoStack)

lemma indentTask_undoStack: "undoStack (snd (indentTask now i dir w)) = undoStack w"
  unfolding indentTask_def
  by (intro and_then_undoStack query_undoStack)
     (auto simp: Let_def result_undoStack split: option.splits
           intro!: and_then_undoStack moveTask_undoStack query_undoStack result_undoStack)

lemma autoCompleteParent_undoStack:
  assumes "autoCompleteParent now c w = Some y"
  shows "undoStack (snd y) = undoStack w"
proof (rule autoCompleteParent.raw_induct[where P = "\<lambda>now c w y. undoStack (snd y) = undoStack w", OF _ assms])
  fix acp :: "string \<Rightarrow> string option \<Rightarrow> world \<Rightarrow> ((sqlite_error + unit) \<times> world) option"
  fix now c w y
  assume IH: "\<And>now c w y. acp now c w = Some y \<Longrightarrow> undoStack (snd y) = undoStack w"
  assume body: "(case query (\<lambda>t. map_option parent_id (select_by_id c t)) w of
      (Inl e, w1) \<Rightarrow> Some (Inl e, w1)
      | (Inr row, w1) \<Rightarrow>
          case case row of None \<Rightarrow> None | Some p \<Rightarrow> p of
          None \<Rightarrow> Some (Inr (), w1)
          | Some parentId \<Rightarrow>
              if \<not> truthy (Some parentId) then Some (Inr (), w1)
              else case query (select_child_stats parentId) w1 of
                   (Inl e, w2) \<Rightarrow> Some (Inl e, w2)
                   | (Inr stats, w2) \<Rightarrow>
                       if 0 < fst stats \<and> Some (fst stats) = snd stats
                       then case exec (\<lambda>t. Inr (sql_update_status Done now (Some parentId) t)) w2 of
                            (Inl e, w3) \<Rightarrow> Some (Inl e, w3)
                            | (Inr u, w3) \<Rightarrow> acp now (Some parentId) w3
                       else Some (Inr (), w2)) = Some y"
  show "undoStack (snd y) = undoStack w"
    using body
    by (auto simp: query_def exec_def split: prod.splits sum.splits option.splits if_splits dest!: IH)
qed

lemma completeTask_undoStack:
  "completeTask now i w = Some y \<Longrightarrow> undoStack (snd y) = undoStack w"
  by (auto simp: completeTask_def exec_def split: prod.splits sum.splits if_splits
           dest!: autoCompleteParent_undoStack)

lemma applyLoop_undoStack:
  "applyLoop gen now ops n idMap w = Some y \<Longrightarrow> undoStack (snd y) = undoStack w"
proof (induction ops arbitrary: n idMap w y)
  case Nil
  then show ?case by auto
next
  case (Cons op ops)
  show ?case
  proof (cases op)
    case (Add op_id op_title op_parent)
    obtain r w1 where res: "addTask (gen n) now op_title (resolveId idMap op_parent) w = (r, w1)"
      by (cases "addTask (gen n) now op_title (resolveId idMap op_parent) w")
    have w1: "undoStack w1 = undoStack w"
      using addTask_undoStack[of "gen n" now op_title "resolveId idMap op_parent" w] res by simp
    show ?thesis
    proof (cases r)
      case (Inl e)
      then show ?thesis using Cons.prems Add res w1 by auto
    next
      case (Inr task)
      then show ?thesis using Cons.prems Add res w1 Cons.IH by auto
    qed
  next
    case (Delete taskId)
    obtain r w1 where res: "deleteTask (resolveId idMap (Some taskId)) w = (r, w1)"
      by (cases "deleteTask (resolveId idMap (Some taskId)) w")
    have w1: "undoStack w1 = undoStack w"
      using deleteTask_undoStack[of "resolveId idMap (Some taskId)" w] res by simp
    show ?thesis
    proof (cases r)
      case (Inl e)
      then show ?thesis using Cons.prems Delete res w1 by auto
    next
      case (Inr u)
      then show ?thesis using Cons.prems Delete res w1 Cons.IH by auto
    qed
  next
    case (Move taskId newParentId)
    obtain r w1 where
      res: "moveTask now (resolveId idMap (Some taskId)) (resolveId idMap newParentId) w = (r, w1)"
      by (cases "moveTask now (resolveId idMap (Some taskId)) (resolveId idMap newParentId) w")
    have w1: "undoStack w1 = undoStack w"
      using moveTask_undoStack[of now "resolveId idMap (Some taskId)" "resolveId idMap newParentId" w]
        res by simp
    show ?thesis
    proof (cases r)
      case (Inl e)
      then show ?thesis using Cons.prems Move res w1 by auto
    next
      case (Inr u)
      then show ?thesis using Cons.prems Move res w1 Cons.IH by auto
    qed
  next
    case (Update taskId op_title)
    obtain r w1 where
      res: "updateTask now (resolveId idMap (Some taskId)) (Some op_title) None w = (r, w1)"
      by (cases "updateTask now (resolveId idMap (Some taskId)) (Some op_title) None w")
    have w1: "undoStack w1 = undoStack w"
      using updateTask_undoStack[of now "resolveId idMap (Some taskId)" "Some op_title" None w]
        res by simp
    show ?thesis
    proof (cases r)
      case (Inl e)
      then show ?thesis using Cons.prems Update res w1 by auto
    next
      case (Inr u)
      then show ?thesis using Cons.prems Update res w1 Cons.IH by auto
    qed
  next
    case (DoneOp taskId)
    from Cons.prems DoneOp obtain r w1 where
      res: "completeTask now (resolveId idMap (Some taskId)) w = Some (r, w1)"
      by (auto split: option.splits)
    have w1: "undoStack w1 = undoStack w"
      using completeTask_undoStack[OF res] by simp
    show ?thesis
    proof (cases r)
      case (Inl e)
      then show ?thesis using Cons.prems DoneOp res w1 by auto
    next
      case (Inr u)
      then show ?thesis using Cons.prems DoneOp res w1 Cons.IH by auto
    qed
  qed
qed

lemma applyOperations_undoStack:
  assumes "applyOperations gen now ops w = Some y"
  shows "undoStack (snd y) = undoStack w"
proof -
  from assms obtain y0 where y0: "applyLoop gen now ops 0 Map.empty w = Some y0"
    and y: "y = commit_or_rollback w y0"
    by (auto simp: applyOperations_def)
  have "undoStack (snd (commit_or_rollback w y0)) = undoStack (snd y0)"
    by (cases y0) (auto simp: commit_or_rollback_def split: sum.splits)
  then show ?thesis using applyLoop_undoStack[OF y0] y by simp
qed

subsection \<open>The parent relation\<close>

lemma parent_rel_iff:
  "(c, p) \<in> parent_rel t \<longleftrightarrow> (\<exists>r \<in> set t. row_id r = c \<and> parent_id r = Some p)"
proof
  assume "(c, p) \<in> parent_rel t"
  then obtain r where "r \<in> set t" "(c, p) \<in> set (case parent_id r of None \<Rightarrow> [] | Some p \<Rightarrow> [(row_id r, p)])"
    by (auto simp: parent_rel_def)
  then show "\<exists>r \<in> set t. row_id r = c \<and> parent_id r = Some p"
    by (cases "parent_id r") auto
next
  assume "\<exists>r \<in> set t. row_id r = c \<and> parent_id r = Some p"
  then obtain r where "r \<in> set t" "row_id r = c" "parent_id r = Some p" by blast
  then show "(c, p) \<in> parent_rel t"
    unfolding parent_rel_def by (simp only: set_concat set_map) force
qed

lemma finite_parent_rel: "finite (parent_rel t)"
  unfolding parent_rel_def by (rule finite_set)

lemma parent_rel_reparent:
  "parent_rel (map (\<lambda>r. if Some (row_id r) = Some a
                          then r\<lparr>parent_id := p, position := pos, updated_at := now\<rparr>
                          else r) t)
   = (parent_rel t - {a} \<times> UNIV)
     \<union> (if a \<in> set (map row_id t) then (case p of None \<Rightarrow> {} | Some b \<Rightarrow> {(a, b)}) else {})"
  (is "parent_rel (map ?f t) = ?R")
proof (rule set_eqI, clarify)
  fix x y
  have L: "(x, y) \<in> parent_rel (map ?f t)
           \<longleftrightarrow> (\<exists>r \<in> set t. row_id (?f r) = x \<and> parent_id (?f r) = Some y)"
    by (simp only: parent_rel_iff set_map bex_simps)
  have ids: "a \<in> set (map row_id t) \<longleftrightarrow> (\<exists>r \<in> set t. row_id r = a)"
    by auto
  show "(x, y) \<in> parent_rel (map ?f t) \<longleftrightarrow> (x, y) \<in> ?R"
  proof (cases "x = a")
    case True
    have "(\<exists>r \<in> set t. row_id (?f r) = x \<and> parent_id (?f r) = Some y)
          \<longleftrightarrow> (\<exists>r \<in> set t. row_id r = a) \<and> p = Some y"
      using True by auto
    moreover have "(x, y) \<in> ?R \<longleftrightarrow> (\<exists>r \<in> set t. row_id r = a) \<and> p = Some y"
      unfolding ids using True by (cases p) auto
    ultimately show ?thesis using L by simp
  next
    case False
    have "(\<exists>r \<in> set t. row_id (?f r) = x \<and> parent_id (?f r) = Some y)
          \<longleftrightarrow> (\<exists>r \<in> set t. row_id r = x \<and> parent_id r = Some y)"
      using False by auto
    moreover have "(x, y) \<in> ?R \<longleftrightarrow> (x, y) \<in> parent_rel t"
      using False by (cases p) auto
    ultimately show ?thesis using L by (simp add: parent_rel_iff)
  qed
qed

lemma rtrancl_avoiding_target:
  assumes "(b, a) \<in> R\<^sup>*"
  shows "(b, a) \<in> (R - {a} \<times> UNIV)\<^sup>*"
  using assms
proof (induction rule: converse_rtrancl_induct)
  case base
  then show ?case by simp
next
  case (step x y)
  show ?case
  proof (cases "x = a")
    case True
    then show ?thesis by simp
  next
    case False
    with step.hyps(1) have "(x, y) \<in> R - {a} \<times> UNIV" by simp
    then show ?thesis using step.IH by (rule converse_rtrancl_into_rtrancl)
  qed
qed

lemma parent_rel_filter_subset: "parent_rel (filter P t) \<subseteq> parent_rel t"
  by (auto simp: parent_rel_iff)

lemma acyclic_empty: "acyclic {}"
  by (simp add: acyclic_def)

lemma parent_rel_one_child: "parent_rel (tasks one_child) = {(''01C'', ''01P'')}"
  by (simp add: one_child_eq parent_rel_def)

lemma parent_rel_chain:
  "parent_rel (tasks chain) = {(''01P'', ''01G''), (''01U'', ''01G''), (''01C'', ''01P'')}"
  by (simp add: chain_def parent_rel_def)

lemma tasks_update: "tasks (w\<lparr>tasks := t\<rparr>) = t"
  by simp

subsection \<open>Completing a task that does not exist\<close>

lemma sql_update_status_missing:
  "i \<notin> set (map row_id t) \<Longrightarrow> sql_update_status v now (Some i) t = t"
  unfolding sql_update_status_def by (induction t) auto

lemma select_by_id_missing:
  "i \<notin> set (map row_id t) \<Longrightarrow> select_by_id (Some i) t = None"
  unfolding select_by_id_def by (induction t) auto

text \<open>
  C10: \<^verbatim>\<open>completeTask(id)\<close> for an id that matches no row returns and leaves every row as
  it was: the \<^verbatim>\<open>UPDATE\<close> touches no row, and \<^verbatim>\<open>autoCompleteParent\<close> finds no row for the
  id and returns at once, marking nothing. The undo stack is untouched as well, and
  nothing is thrown unless the storage fails.
\<close>

theorem completeTask_missing_id:
  assumes "i \<notin> set (map row_id (tasks w))"
  shows "\<exists>r w'. completeTask now (Some i) w = Some (r, w') \<and> tasks w' = tasks w
           \<and> undoStack w' = undoStack w \<and> (io_budget w = None \<longrightarrow> r = Inr ())"
proof (cases "io_budget w = Some 0")
  case True
  then show ?thesis by (simp add: completeTask_def exec_def)
next
  case False
  let ?w1 = "tick (w\<lparr>tasks := sql_update_status Done now (Some i) (tasks w)\<rparr>)"
  have t1: "tasks ?w1 = tasks w"
    using assms by (simp add: sql_update_status_missing)
  have step: "completeTask now (Some i) w = autoCompleteParent now (Some i) ?w1"
    using False by (simp add: completeTask_def exec_def)
  show ?thesis
  proof (cases "io_budget ?w1 = Some 0")
    case True
    then have "autoCompleteParent now (Some i) ?w1 = Some (Inl SQLITE_IOERR, ?w1)"
      by (subst autoCompleteParent.simps) (simp add: query_def)
    moreover have "io_budget w \<noteq> None" using True by (auto simp: tick_def)
    ultimately show ?thesis using step t1 by simp
  next
    case False
    have "select_by_id (Some i) (tasks ?w1) = None"
      using assms t1 by (simp add: select_by_id_missing)
    then have "autoCompleteParent now (Some i) ?w1 = Some (Inr (), tick ?w1)"
      using False by (subst autoCompleteParent.simps) (simp add: query_def)
    then show ?thesis using step t1 by simp
  qed
qed

theorem completeTask_missing_id_witness:
  "''01X'' \<notin> set (map row_id (tasks family)) \<and> io_budget family = None
   \<and> (\<exists>w'. completeTask ''09:05'' (Some ''01X'') family = Some (Inr (), w')
          \<and> tasks w' = [rowP, rowC1, rowC2])"
  using completeTask_missing_id[of "''01X''" family "''09:05''"]
  by (auto simp: family_def rowP_def rowC1_def rowC2_def)

subsection \<open>Deleting\<close>

lemma cascade_is_filter: "cascade d ks t = Inr t' \<Longrightarrow> \<exists>P. t' = filter P t"
proof (induction d ks t rule: cascade.induct)
  case (1 d ks t)
  show ?case
  proof (cases "ks = []")
    case True
    then have "t' = filter (\<lambda>r. True) t"
      using "1.prems" by (subst (asm) cascade.simps) simp
    then show ?thesis by blast
  next
    case False
    let ?D = "\<lambda>r. parent_id r \<in> Some ` set ks"
    have lt: "\<not> SQLITE_MAX_TRIGGER_DEPTH \<le> d"
      using "1.prems" False by (subst (asm) cascade.simps) (auto split: if_splits)
    have "cascade (Suc d) (map row_id (filter ?D t)) (filter (\<lambda>r. \<not> ?D r) t) = Inr t'"
      using "1.prems" False lt by (subst (asm) cascade.simps) simp
    from "1.IH"[OF False lt this] obtain P where "t' = filter P (filter (\<lambda>r. \<not> ?D r) t)"
      by blast
    then have "t' = filter (\<lambda>r. \<not> ?D r \<and> P r) t"
      by (simp add: conj_commute)
    then show ?thesis by blast
  qed
qed

lemma cascade_error: "cascade d ks t = Inl e \<Longrightarrow> e = SQLITE_ERROR"
proof (induction d ks t rule: cascade.induct)
  case (1 d ks t)
  show ?case
  proof (cases "ks = [] \<or> SQLITE_MAX_TRIGGER_DEPTH \<le> d")
    case True
    then show ?thesis
      using "1.prems" by (subst (asm) cascade.simps) (auto split: if_splits)
  next
    case False
    then have "cascade (Suc d) (map row_id (filter (\<lambda>r. parent_id r \<in> Some ` set ks) t))
                 (filter (\<lambda>r. parent_id r \<notin> Some ` set ks) t) = Inl e"
      using "1.prems" by (subst (asm) cascade.simps) simp
    then show ?thesis using "1.IH" False by blast
  qed
qed

lemma sql_delete_is_filter: "sql_delete i t = Inr t' \<Longrightarrow> \<exists>P. t' = filter P t"
proof (cases "\<exists>r \<in> set t. Some (row_id r) = i")
  case True
  assume "sql_delete i t = Inr t'"
  then have "cascade 0 (map row_id (filter (\<lambda>r. Some (row_id r) = i) t))
                   (filter (\<lambda>r. Some (row_id r) \<noteq> i) t) = Inr t'"
    using True by (simp add: sql_delete_def)
  then obtain P where "t' = filter P (filter (\<lambda>r. Some (row_id r) \<noteq> i) t)"
    using cascade_is_filter by blast
  then have "t' = filter (\<lambda>r. Some (row_id r) \<noteq> i \<and> P r) t"
    by (simp add: conj_commute)
  then show ?thesis by blast
next
  case False
  assume "sql_delete i t = Inr t'"
  then have "t' = filter (\<lambda>r. True) t"
    using False by (simp add: sql_delete_def)
  then show ?thesis by blast
qed

lemma sql_delete_error: "sql_delete i t = Inl e \<Longrightarrow> e = SQLITE_ERROR"
  by (auto simp: sql_delete_def split: if_splits dest: cascade_error)

lemma deleteTask_cases:
  "deleteTask i w =
     (if io_budget w = Some 0 then (Inl SQLITE_IOERR, w)
      else case sql_delete i (tasks w) of
             Inl e \<Rightarrow> (Inl e, tick w)
           | Inr t' \<Rightarrow> (Inr (), tick (w\<lparr>tasks := t'\<rparr>)))"
  by (simp add: deleteTask_def exec_def)

lemma sql_delete_removes: "sql_delete (Some i) t = Inr t' \<Longrightarrow> i \<notin> row_id ` set t'"
proof (cases "\<exists>r \<in> set t. Some (row_id r) = Some i")
  case True
  assume "sql_delete (Some i) t = Inr t'"
  then have "cascade 0 (map row_id (filter (\<lambda>r. Some (row_id r) = Some i) t))
                   (filter (\<lambda>r. Some (row_id r) \<noteq> Some i) t) = Inr t'"
    using True by (simp add: sql_delete_def)
  then obtain P where "t' = filter P (filter (\<lambda>r. Some (row_id r) \<noteq> Some i) t)"
    using cascade_is_filter by blast
  then show ?thesis by auto
next
  case False
  assume "sql_delete (Some i) t = Inr t'"
  then have "t' = t" using False by (simp add: sql_delete_def)
  then show ?thesis using False by auto
qed

lemma delete_each_Inr:
  "delete_each ids t = Inr t' \<Longrightarrow> set t' \<subseteq> set t \<and> set ids \<inter> row_id ` set t' = {}"
proof (induction ids arbitrary: t)
  case Nil
  then show ?case by simp
next
  case (Cons i ids)
  from Cons.prems obtain t1 where
    d: "sql_delete (Some i) t = Inr t1" and r: "delete_each ids t1 = Inr t'"
    by (auto split: sum.splits)
  from sql_delete_is_filter[OF d] obtain P1 where "t1 = filter P1 t" by (elim exE)
  then have s1: "set t1 \<subseteq> set t" by simp
  from Cons.IH[OF r] have s: "set t' \<subseteq> set t1" and none: "set ids \<inter> row_id ` set t' = {}"
    by simp_all
  have "i \<notin> row_id ` set t1" using d by (rule sql_delete_removes)
  then have "i \<notin> row_id ` set t'" using s by (meson image_mono subsetD)
  then have "set (i # ids) \<inter> row_id ` set t' = {}" using none by simp
  moreover have "set t' \<subseteq> set t" using s s1 by (rule subset_trans)
  ultimately show ?case by (intro conjI)
qed

lemma delete_each_error: "delete_each ids t = Inl e \<Longrightarrow> e = SQLITE_ERROR"
proof (induction ids arbitrary: t)
  case Nil
  then show ?case by simp
next
  case (Cons i ids)
  show ?case
  proof (cases "sql_delete (Some i) t")
    case (Inl e')
    then have "e' = e" using Cons.prems by simp
    then show ?thesis using Inl by (simp add: sql_delete_error)
  next
    case (Inr t1)
    then have "delete_each ids t1 = Inl e" using Cons.prems by simp
    then show ?thesis by (rule Cons.IH)
  qed
qed

lemma sql_delete_all_Inr: "sql_delete_all t = Inr t' \<Longrightarrow> t' = []"
proof -
  assume "sql_delete_all t = Inr t'"
  then have d: "delete_each (map row_id t) t = Inr t'"
    by (simp only: sql_delete_all_def)
  from delete_each_Inr[OF d] have sub: "set t' \<subseteq> set t"
    and none: "set (map row_id t) \<inter> row_id ` set t' = {}" by simp_all
  show ?thesis
  proof (cases t')
    case Nil
    then show ?thesis .
  next
    case (Cons r rs)
    then have "r \<in> set t'" by simp
    then have "r \<in> set t" using sub by (rule subsetD[rotated])
    then have "row_id r \<in> set (map row_id t)" by simp
    moreover have "row_id r \<in> row_id ` set t'" using \<open>r \<in> set t'\<close> by (rule imageI)
    ultimately show ?thesis using none by blast
  qed
qed

lemma sql_delete_all_error: "sql_delete_all t = Inl e \<Longrightarrow> e = SQLITE_ERROR"
  unfolding sql_delete_all_def by (rule delete_each_error)

text \<open>A table of at most \<open>SQLITE_MAX_TRIGGER_DEPTH\<close> rows has no cascade that is too deep.\<close>

lemma cascade_small:
  "ks = [] \<or> d + length t < SQLITE_MAX_TRIGGER_DEPTH \<Longrightarrow> \<exists>t'. cascade d ks t = Inr t'"
proof (induction d ks t rule: cascade.induct)
  case (1 d ks t)
  show ?case
  proof (cases "ks = []")
    case True
    then show ?thesis by (subst cascade.simps) simp
  next
    case False
    let ?D = "\<lambda>r. parent_id r \<in> Some ` set ks"
    have lt: "\<not> SQLITE_MAX_TRIGGER_DEPTH \<le> d" "d + length t < SQLITE_MAX_TRIGGER_DEPTH"
      using "1.prems" False by auto
    have "map row_id (filter ?D t) = []
          \<or> Suc d + length (filter (\<lambda>r. \<not> ?D r) t) < SQLITE_MAX_TRIGGER_DEPTH"
    proof (cases "filter ?D t = []")
      case True
      then show ?thesis by simp
    next
      case False
      then obtain r where "r \<in> set t" "\<not> \<not> ?D r"
        by (auto simp: filter_empty_conv)
      then have "length (filter (\<lambda>r. \<not> ?D r) t) < length t"
        by (simp add: length_filter_less[of r t "\<lambda>r. \<not> ?D r"])
      then show ?thesis using lt(2) by simp
    qed
    from "1.IH"[OF False lt(1) this] obtain t' where
      "cascade (Suc d) (map row_id (filter ?D t)) (filter (\<lambda>r. \<not> ?D r) t) = Inr t'"
      by blast
    then have "cascade d ks t = Inr t'"
      using False lt(1) by (subst cascade.simps) simp
    then show ?thesis by blast
  qed
qed

lemma sql_delete_small:
  assumes "length t \<le> SQLITE_MAX_TRIGGER_DEPTH"
  shows "\<exists>t'. sql_delete i t = Inr t'"
proof (cases "\<exists>r \<in> set t. Some (row_id r) = i")
  case True
  then obtain r where "r \<in> set t" "\<not> Some (row_id r) \<noteq> i" by blast
  then have "length (filter (\<lambda>r. Some (row_id r) \<noteq> i) t) < length t"
    by (simp add: length_filter_less[of r t "\<lambda>r. Some (row_id r) \<noteq> i"])
  then have "0 + length (filter (\<lambda>r. Some (row_id r) \<noteq> i) t) < SQLITE_MAX_TRIGGER_DEPTH"
    using assms by simp
  then obtain t' where "cascade 0 (map row_id (filter (\<lambda>r. Some (row_id r) = i) t))
                          (filter (\<lambda>r. Some (row_id r) \<noteq> i) t) = Inr t'"
    using cascade_small by blast
  then show ?thesis using True by (simp add: sql_delete_def)
next
  case False
  then show ?thesis by (simp add: sql_delete_def)
qed

lemma delete_each_small:
  "length t \<le> SQLITE_MAX_TRIGGER_DEPTH \<Longrightarrow> \<exists>t'. delete_each ids t = Inr t'"
proof (induction ids arbitrary: t)
  case Nil
  then show ?case by simp
next
  case (Cons i ids)
  from sql_delete_small[OF Cons.prems] obtain t1 where d: "sql_delete (Some i) t = Inr t1"
    by blast
  from sql_delete_is_filter[OF d] obtain P where "t1 = filter P t" by blast
  then have "length t1 \<le> length t" by simp
  then have "length t1 \<le> SQLITE_MAX_TRIGGER_DEPTH" using Cons.prems by simp
  from Cons.IH[OF this] show ?case using d by simp
qed

lemma sql_delete_all_small:
  "length t \<le> SQLITE_MAX_TRIGGER_DEPTH \<Longrightarrow> sql_delete_all t = Inr []"
proof -
  assume "length t \<le> SQLITE_MAX_TRIGGER_DEPTH"
  then obtain t' where t': "sql_delete_all t = Inr t'"
    using delete_each_small[of t "map row_id t"] by (auto simp: sql_delete_all_def)
  with sql_delete_all_Inr[OF t'] show ?thesis by simp
qed

text \<open>
  C5: \<^verbatim>\<open>deleteTask\<close> changes no field of a row that survives it: the table afterwards is
  the table before with some rows left out, each remaining row as it was and in its place.
  So a parent whose open children are deleted keeps its status, also when all the children
  it has left are done; nothing but \<^verbatim>\<open>completeTask\<close> propagates.
\<close>

theorem deleteTask_changes_no_survivor:
  "(\<exists>P. tasks (snd (deleteTask i w)) = filter P (tasks w))
   \<and> undoStack (snd (deleteTask i w)) = undoStack w"
proof -
  have stack: "undoStack (snd (deleteTask i w)) = undoStack w"
    by (simp add: deleteTask_def exec_undoStack)
  have keep: "tasks w = filter (\<lambda>r. True) (tasks w)"
    by simp
  have "\<exists>P. tasks (snd (deleteTask i w)) = filter P (tasks w)"
  proof (cases "io_budget w = Some 0")
    case True
    then have "tasks (snd (deleteTask i w)) = tasks w"
      by (simp add: deleteTask_cases)
    then show ?thesis using keep by metis
  next
    case False
    show ?thesis
    proof (cases "sql_delete i (tasks w)")
      case (Inl e)
      then have "tasks (snd (deleteTask i w)) = tasks w"
        using False by (simp add: deleteTask_cases)
      then show ?thesis using keep by metis
    next
      case (Inr t')
      then have "tasks (snd (deleteTask i w)) = t'"
        using False by (simp add: deleteTask_cases)
      then show ?thesis using sql_delete_is_filter[OF Inr] by simp
    qed
  qed
  then show ?thesis using stack by simp
qed

theorem deleteTask_changes_no_survivor_witness:
  "(\<exists>P. tasks (snd (deleteTask (Some ''01C2'') family)) = filter P [rowP, rowC1, rowC2])
   \<and> tasks (snd (deleteTask (Some ''01C2'') family)) = [rowP, rowC1]
   \<and> status rowP = Todo \<and> status rowC1 = Done"
proof -
  have "tasks (snd (deleteTask (Some ''01C2'') family)) = [rowP, rowC1]"
    by (simp add: family_def rowP_def rowC1_def rowC2_def deleteTask_def exec_def sql_delete_def
        cascade.simps SQLITE_MAX_TRIGGER_DEPTH_def tick_def)
  moreover have "status rowP = Todo \<and> status rowC1 = Done"
    by (simp add: rowP_def rowC1_def)
  moreover have "tasks family = [rowP, rowC1, rowC2]"
    by (simp add: family_def)
  ultimately show ?thesis
    using deleteTask_changes_no_survivor[of "Some ''01C2''" family] by simp
qed

subsection \<open>Creating\<close>



subsection \<open>The undo stack\<close>

lemma saveSnapshot_stack:
  "undoStack (snd (saveSnapshot w)) =
     (if io_budget w = Some 0 then undoStack w
      else if length (undoStack w) \<ge> MAX_UNDO then tl (undoStack w @ [tasks w])
      else undoStack w @ [tasks w])"
  by (simp add: saveSnapshot_def and_then_def query_def Let_def)

lemma undo_stack: "undoStack (snd (undo w)) = butlast (undoStack w)"
proof (cases "undoStack w = []")
  case True
  then show ?thesis by (simp add: undo_def)
next
  case False
  let ?w1 = "w\<lparr>undoStack := butlast (undoStack w)\<rparr>"
  have "undoStack (snd (and_then
             (transaction (and_then (exec sql_delete_all) (\<lambda>_. insert_rows (last (undoStack w)))))
             (\<lambda>_. result True) ?w1)) = undoStack ?w1"
    by (intro and_then_undoStack transaction_undoStack exec_undoStack insert_rows_undoStack
        result_undoStack)
  then show ?thesis using False by (simp add: undo_def Let_def)
qed

lemma saveSnapshot_length:
  "length (undoStack w) \<le> MAX_UNDO \<Longrightarrow> length (undoStack (snd (saveSnapshot w))) \<le> MAX_UNDO"
  by (simp add: saveSnapshot_stack)

lemma insert_rows_tasks:
  "insert_rows rows w = (Inr u, w') \<Longrightarrow> tasks w' = tasks w @ rows"
proof (induction rows arbitrary: w)
  case Nil
  then show ?case by (simp add: result_def)
next
  case (Cons row rows)
  from Cons.prems obtain w1 where
    e: "exec (sql_insert row) w = (Inr (), w1)" and r: "insert_rows rows w1 = (Inr u, w')"
    by (auto simp: and_then_def split: prod.splits sum.splits)
  from exec_Inr_tasks[OF e] have "tasks w1 = tasks w @ [row]"
    by (auto simp: sql_insert_def split: if_splits)
  then show ?case using Cons.IH[OF r] by simp
qed

lemma undo_restore_tasks:
  assumes "transaction (and_then (exec sql_delete_all) (\<lambda>_. insert_rows s)) w = (r, w')"
  shows "(\<exists>e. r = Inl e \<and> tasks w' = tasks w) \<or> (r = Inr () \<and> tasks w' = s)"
proof (cases "and_then (exec sql_delete_all) (\<lambda>_. insert_rows s) w")
  case (Pair r1 w1)
  show ?thesis
  proof (cases r1)
    case (Inl e)
    then show ?thesis using Pair assms by (auto simp: transaction_def commit_or_rollback_def)
  next
    case (Inr u)
    with Pair obtain w0 where
      e: "exec sql_delete_all w = (Inr (), w0)" and i: "insert_rows s w0 = (Inr u, w1)"
      by (auto simp: and_then_def split: prod.splits sum.splits)
    from exec_Inr_tasks[OF e] have "tasks w0 = []" by (rule sql_delete_all_Inr)
    with insert_rows_tasks[OF i] have "tasks w1 = s" by simp
    then show ?thesis using Pair Inr assms by (auto simp: transaction_def commit_or_rollback_def)
  qed
qed

lemma undo_tasks:
  "tasks (snd (undo w)) = tasks w \<or> (undoStack w \<noteq> [] \<and> tasks (snd (undo w)) = last (undoStack w))"
proof (cases "undoStack w = []")
  case True
  then show ?thesis by (simp add: undo_def)
next
  case False
  let ?w1 = "w\<lparr>undoStack := butlast (undoStack w)\<rparr>"
  obtain r w' where t: "transaction (and_then (exec sql_delete_all) (\<lambda>_. insert_rows (last (undoStack w)))) ?w1 = (r, w')"
    by (cases "transaction (and_then (exec sql_delete_all) (\<lambda>_. insert_rows (last (undoStack w)))) ?w1")
  have u: "tasks (snd (undo w)) = tasks w'"
    using False t by (auto simp: undo_def Let_def and_then_def result_def split: sum.splits)
  from undo_restore_tasks[OF t] show ?thesis using u False by auto
qed

lemma undos_tasks:
  "tasks (undos k w) \<in> insert (tasks w) (set (undoStack w))"
proof (induction k arbitrary: w)
  case 0
  then show ?case by simp
next
  case (Suc k)
  have "tasks (undos k (snd (undo w))) \<in> insert (tasks (snd (undo w))) (set (butlast (undoStack w)))"
    using Suc[of "snd (undo w)"] by (simp add: undo_stack)
  moreover have "set (butlast (undoStack w)) \<subseteq> set (undoStack w)"
    by (auto dest: in_set_butlastD)
  moreover have "tasks (snd (undo w)) \<in> insert (tasks w) (set (undoStack w))"
    using undo_tasks[of w] by auto
  ultimately show ?case by auto
qed

lemma reachable_bound: "reachable w \<Longrightarrow> length (undoStack w) \<le> MAX_UNDO"
proof (induction rule: reachable.induct)
  case (saveSnapshot w)
  then show ?case by (simp add: saveSnapshot_length)
next
  case (undo w)
  then show ?case by (simp add: undo_stack)
qed (simp_all add: addTask_undoStack updateTask_undoStack deleteTask_undoStack
      completeTask_undoStack moveTask_undoStack reorderTask_undoStack indentTask_undoStack
      clearAllTasks_undoStack applyOperations_undoStack)


lemma insert_rows_parents_first:
  "io_budget w = None \<Longrightarrow> parents_first (map row_id (tasks w)) rows \<Longrightarrow>
   insert_rows rows w = (Inr (), w\<lparr>tasks := tasks w @ rows\<rparr>)"
proof (induction rows arbitrary: w)
  case Nil
  then show ?case by (simp add: result_def)
next
  case (Cons r rows)
  let ?w1 = "w\<lparr>tasks := tasks w @ [r]\<rparr>"
  have ins: "sql_insert r (tasks w) = Inr (tasks w @ [r])"
    using Cons.prems(2) by (auto simp: sql_insert_def split: option.splits)
  have e: "exec (sql_insert r) w = (Inr (), ?w1)"
    using Cons.prems(1) ins by (simp add: exec_no_faults)
  have "insert_rows rows ?w1 = (Inr (), ?w1\<lparr>tasks := tasks ?w1 @ rows\<rparr>)"
    using Cons.prems by (intro Cons.IH) simp_all
  then show ?case using e by (simp add: and_then_def)
qed

lemma undo_empty_stack: "undoStack w = [] \<Longrightarrow> undo w = (Inr False, w)"
  by (simp add: undo_def)

lemma undo_restores_parents_first:
  assumes "io_budget w = None" and "undoStack w = st @ [s]" and "parents_first [] s"
    and "length (tasks w) \<le> SQLITE_MAX_TRIGGER_DEPTH"
  shows "undo w = (Inr True, w\<lparr>undoStack := st, tasks := s\<rparr>)"
proof -
  let ?w1 = "w\<lparr>undoStack := st\<rparr>"
  let ?w2 = "?w1\<lparr>tasks := []\<rparr>"
  have e: "exec sql_delete_all ?w1 = (Inr (), ?w2)"
    using assms(1) sql_delete_all_small[OF assms(4)] by (simp add: exec_no_faults)
  have i: "insert_rows s ?w2 = (Inr (), ?w2\<lparr>tasks := tasks ?w2 @ s\<rparr>)"
    using assms(1,3) by (intro insert_rows_parents_first) simp_all
  have "transaction (and_then (exec sql_delete_all) (\<lambda>_. insert_rows s)) ?w1
        = (Inr (), w\<lparr>undoStack := st, tasks := s\<rparr>)"
    using e i by (simp add: transaction_def commit_or_rollback_def and_then_def)
  then show ?thesis
    using assms(2) by (simp add: undo_def Let_def and_then_def result_def)
qed

lemma undo_all_or_nothing:
  "fst (undo w) = Inl e \<Longrightarrow> tasks (snd (undo w)) = tasks w"
proof (cases "undoStack w = []")
  case True
  then show ?thesis by (simp add: undo_def)
next
  case False
  assume l: "fst (undo w) = Inl e"
  let ?w1 = "w\<lparr>undoStack := butlast (undoStack w)\<rparr>"
  let ?tr = "transaction (and_then (exec sql_delete_all) (\<lambda>_. insert_rows (last (undoStack w)))) ?w1"
  obtain r w' where t: "?tr = (r, w')" by (cases ?tr)
  have u: "undo w = (case r of Inl e \<Rightarrow> (Inl e, w') | Inr v \<Rightarrow> (Inr True, w'))"
    using False t by (simp add: undo_def Let_def and_then_def result_def split: sum.splits)
  with l obtain e' where "r = Inl e'" by (cases r) auto
  then have "tasks w' = tasks ?w1"
    using undo_restore_tasks[OF t] by auto
  then show ?thesis using u \<open>r = Inl e'\<close> by simp
qed

lemma saveSnapshot_tasks: "tasks (snd (saveSnapshot w)) = tasks w"
  by (simp add: saveSnapshot_def and_then_def query_def Let_def)

lemma saveSnapshot_budget: "io_budget w = None \<Longrightarrow> io_budget (snd (saveSnapshot w)) = None"
  by (simp add: saveSnapshot_def and_then_def query_def Let_def tick_def)

lemma save_run_tasks: "tasks (save_run ts w) = last (tasks w # ts)"
proof (induction ts arbitrary: w)
  case Nil
  then show ?case by simp
next
  case (Cons t ts)
  have "tasks (save_run ts (snd (saveSnapshot (w\<lparr>tasks := t\<rparr>)))) = last (t # ts)"
    by (simp only: Cons.IH saveSnapshot_tasks tasks_update)
  then show ?case by simp
qed

lemma save_run_stack:
  "io_budget w = None \<Longrightarrow> length (undoStack w) \<le> MAX_UNDO \<Longrightarrow>
   undoStack (save_run ts w)
     = drop (length (undoStack w) + length ts - MAX_UNDO) (undoStack w @ ts)"
proof (induction ts arbitrary: w)
  case Nil
  then show ?case by simp
next
  case (Cons t ts)
  let ?w1 = "snd (saveSnapshot (w\<lparr>tasks := t\<rparr>))"
  have b: "io_budget ?w1 = None"
    using Cons.prems(1) by (simp add: saveSnapshot_budget)
  have s1: "undoStack ?w1 = (if length (undoStack w) \<ge> MAX_UNDO then tl (undoStack w @ [t])
                             else undoStack w @ [t])"
    using Cons.prems(1) by (simp add: saveSnapshot_stack)
  have l1: "length (undoStack ?w1) \<le> MAX_UNDO"
    using Cons.prems(2) by (simp add: saveSnapshot_length)
  have IH: "undoStack (save_run ts ?w1)
              = drop (length (undoStack ?w1) + length ts - MAX_UNDO) (undoStack ?w1 @ ts)"
    using b l1 by (rule Cons.IH)
  show ?case
  proof (cases "length (undoStack w) = MAX_UNDO")
    case True
    then have ne: "undoStack w \<noteq> []" by (auto simp: MAX_UNDO_def)
    have u: "undoStack ?w1 = tl (undoStack w) @ [t]" using s1 True ne by simp
    have "length (undoStack ?w1) = MAX_UNDO" unfolding u using True ne by (simp add: MAX_UNDO_def)
    then have "undoStack (save_run ts ?w1) = drop (length ts) (tl (undoStack w) @ t # ts)"
      using IH u by simp
    also have "\<dots> = drop (Suc (length ts)) (undoStack w @ t # ts)"
      using ne by (cases "undoStack w") simp_all
    finally show ?thesis using True by simp
  next
    case False
    then have "length (undoStack w) < MAX_UNDO" using Cons.prems(2) by simp
    then have u: "undoStack ?w1 = undoStack w @ [t]" using s1 by simp
    show ?thesis using IH unfolding u by simp
  qed
qed

text \<open>
  C8: the undo stack never holds more than \<open>MAX_UNDO\<close> = 50 snapshots, in any state the
  module can reach. A \<^verbatim>\<open>saveSnapshot\<close> on a stack that is not full appends the snapshot
  and drops nothing; a \<^verbatim>\<open>saveSnapshot\<close> on a full stack drops the oldest snapshot and
  appends the new one, and whatever number of \<^verbatim>\<open>undo()\<close> calls follows, the table is
  then the table as it is, or one of the snapshots that were above the dropped one: the
  dropped snapshot is not put back. So after any number of \<^verbatim>\<open>saveSnapshot\<close> calls from
  the empty stack, on the tables \<open>ts\<close>, the stack is the last 50 of \<open>ts\<close>: every call
  past the 50th has dropped the oldest snapshot, and the \<^verbatim>\<open>undo()\<close> calls that follow
  bring back none of the dropped ones.
\<close>

theorem undo_stack_bounded:
  "(reachable w \<longrightarrow> length (undoStack w) \<le> MAX_UNDO)
   \<and> (length (undoStack w) < MAX_UNDO \<and> io_budget w \<noteq> Some 0 \<longrightarrow>
        undoStack (snd (saveSnapshot w)) = undoStack w @ [tasks w])
   \<and> (length (undoStack w) = MAX_UNDO \<and> io_budget w \<noteq> Some 0 \<longrightarrow>
        undoStack (snd (saveSnapshot w)) = tl (undoStack w) @ [tasks w]
        \<and> (\<forall>k. tasks (undos k (snd (saveSnapshot w))) \<in> insert (tasks w) (set (tl (undoStack w)))))
   \<and> (undoStack w = [] \<and> io_budget w = None \<longrightarrow>
        (\<forall>ts. undoStack (save_run ts w) = drop (length ts - MAX_UNDO) ts
              \<and> (\<forall>k. tasks (undos k (save_run ts w))
                       \<in> insert (last (tasks w # ts)) (set (drop (length ts - MAX_UNDO) ts)))))"
proof -
  have push: "undoStack (snd (saveSnapshot w)) = undoStack w @ [tasks w]"
    if "length (undoStack w) < MAX_UNDO" "io_budget w \<noteq> Some 0"
    using that by (simp add: saveSnapshot_stack)
  have evict: "undoStack (snd (saveSnapshot w)) = tl (undoStack w) @ [tasks w]"
    if "length (undoStack w) = MAX_UNDO" "io_budget w \<noteq> Some 0"
  proof -
    have "undoStack w \<noteq> []" using that(1) by (auto simp: MAX_UNDO_def)
    then show ?thesis using that by (simp add: saveSnapshot_stack)
  qed
  have t: "tasks (snd (saveSnapshot w)) = tasks w"
    by (rule saveSnapshot_tasks)
  have gone: "tasks (undos k (snd (saveSnapshot w))) \<in> insert (tasks w) (set (tl (undoStack w)))"
    if "length (undoStack w) = MAX_UNDO" "io_budget w \<noteq> Some 0" for k
    using undos_tasks[of k "snd (saveSnapshot w)"] evict[OF that] t by auto
  have run: "undoStack (save_run ts w) = drop (length ts - MAX_UNDO) ts"
    if "undoStack w = []" "io_budget w = None" for ts
    using save_run_stack[of w ts] that by simp
  have run_gone: "tasks (undos k (save_run ts w))
                    \<in> insert (last (tasks w # ts)) (set (drop (length ts - MAX_UNDO) ts))"
    if "undoStack w = []" "io_budget w = None" for ts k
    using undos_tasks[of k "save_run ts w"] run[OF that] by (simp only: save_run_tasks)
  show ?thesis
    using reachable_bound push evict gone run run_gone by (intro conjI impI allI) simp_all
qed

theorem undo_stack_bounded_witness:
  "reachable (snd (saveSnapshot family)) \<and> length (undoStack (snd (saveSnapshot family))) \<le> MAX_UNDO
   \<and> length (undoStack family) < MAX_UNDO \<and> io_budget family \<noteq> Some 0
   \<and> undoStack (snd (saveSnapshot family)) = [[rowP, rowC1, rowC2]]
   \<and> (let full = family\<lparr>undoStack := [rowC1] # replicate 49 []\<rparr>
      in length (undoStack full) = MAX_UNDO \<and> io_budget full \<noteq> Some 0
         \<and> undoStack (snd (saveSnapshot full)) = replicate 49 [] @ [[rowP, rowC1, rowC2]]
         \<and> tasks (undos 2 (snd (saveSnapshot full))) \<noteq> [rowC1])
   \<and> undoStack family = [] \<and> io_budget family = None
   \<and> (let ts = [rowC1] # replicate 50 [rowP]
      in length ts = 51
         \<and> undoStack (save_run ts family) = replicate 50 [rowP]
         \<and> tasks (undos 3 (save_run ts family)) \<noteq> [rowC1])"
proof -
  define full where "full = family\<lparr>undoStack := [rowC1] # replicate 49 []\<rparr>"
  define ts where "ts = [rowC1] # replicate 50 [rowP]"
  have r: "reachable (snd (saveSnapshot family))"
    by (intro reachable.saveSnapshot reachable.start) (simp add: family_def)
  have e: "undoStack family = []" "io_budget family = None" "tasks family = [rowP, rowC1, rowC2]"
    by (simp_all add: family_def)
  have below: "length (undoStack family) < MAX_UNDO" "io_budget family \<noteq> Some 0"
    by (simp_all add: e MAX_UNDO_def)
  have f: "length (undoStack full) = MAX_UNDO" "io_budget full \<noteq> Some 0"
    "tl (undoStack full) = replicate 49 []" "tasks full = [rowP, rowC1, rowC2]"
    by (simp_all add: full_def family_def MAX_UNDO_def)
  have ne: "[rowC1] \<notin> insert (tasks full) (set (tl (undoStack full)))"
    unfolding f by simp
  have tl: "length ts = 51" "drop (length ts - MAX_UNDO) ts = replicate 50 [rowP]"
    "last (tasks family # ts) = [rowP]"
    by (simp_all add: ts_def MAX_UNDO_def)
  have ne2: "[rowC1] \<notin> insert (last (tasks family # ts)) (set (drop (length ts - MAX_UNDO) ts))"
    unfolding tl(2,3) by (simp add: rowC1_def rowP_def)
  from undo_stack_bounded[of "snd (saveSnapshot family)"] r
  have 1: "length (undoStack (snd (saveSnapshot family))) \<le> MAX_UNDO" by blast
  from undo_stack_bounded[of family] below
  have "undoStack (snd (saveSnapshot family)) = undoStack family @ [tasks family]" by blast
  then have 2: "undoStack (snd (saveSnapshot family)) = [[rowP, rowC1, rowC2]]"
    by (simp only: e append_Nil)
  from undo_stack_bounded[of full] f(1,2)
  have 3: "undoStack (snd (saveSnapshot full)) = tl (undoStack full) @ [tasks full]"
    and 4: "tasks (undos 2 (snd (saveSnapshot full))) \<in> insert (tasks full) (set (tl (undoStack full)))"
    by blast+
  from 4 ne have 5: "tasks (undos 2 (snd (saveSnapshot full))) \<noteq> [rowC1]" by metis
  from undo_stack_bounded[of family] e(1,2)
  have 6: "undoStack (save_run ts family) = drop (length ts - MAX_UNDO) ts"
    and 7: "tasks (undos 3 (save_run ts family))
              \<in> insert (last (tasks family # ts)) (set (drop (length ts - MAX_UNDO) ts))"
    by blast+
  from 7 ne2 have 8: "tasks (undos 3 (save_run ts family)) \<noteq> [rowC1]" by metis
  note 9 = 6[unfolded tl(2)]
  show ?thesis
    unfolding Let_def full_def[symmetric] ts_def[symmetric] using r 1 below 2 3 5 f e(1,2) tl(1) 9 8
    by simp
qed

text \<open>
  C6, on the state \<open>child_first\<close>, which two \<^verbatim>\<open>addTask\<close> calls, a \<^verbatim>\<open>reorderTask\<close> and an
  \<^verbatim>\<open>indentTask\<close> produce from the empty table: after \<^verbatim>\<open>saveSnapshot\<close> and a rename,
  \<^verbatim>\<open>undo()\<close> does not return true. Its first \<^verbatim>\<open>INSERT\<close> is the child row, whose parent
  is not back in the table yet, so the foreign key throws; the transaction rolls back to
  the renamed table, and the snapshot has been popped and is lost.
\<close>

theorem undo_fails_on_child_before_parent:
  "(let w1 = snd (saveSnapshot child_first);
        w2 = snd (updateTask ''09:05'' (Some ''01A'') (Some ''Write more tests'') None w1)
    in undoStack w1 = [tasks child_first]
       \<and> tasks w2 \<noteq> tasks child_first
       \<and> undo w2 = (Inl SQLITE_CONSTRAINT_FOREIGNKEY, w2\<lparr>undoStack := []\<rparr>))"
  by (simp add: child_first_eq run_defs)

subsection \<open>Atomicity\<close>

lemma transaction_all_or_nothing:
  "fst (transaction body w) = Inl e \<Longrightarrow> tasks (snd (transaction body w)) = tasks w"
  by (cases "body w") (auto simp: transaction_def commit_or_rollback_def split: sum.splits)

lemma applyOperations_all_or_nothing:
  assumes "applyOperations gen now ops w = Some (Inl e, w')"
  shows "tasks w' = tasks w"
proof -
  from assms obtain r :: "sqlite_error + unit" and w1
    where y: "commit_or_rollback w (r, w1) = (Inl e, w')"
    by (auto simp: applyOperations_def)
  then show ?thesis
    by (cases r) (auto simp: commit_or_rollback_def)
qed

lemma and_then_query:
  "and_then (query q) f w =
     (if io_budget w = Some 0 then (Inl SQLITE_IOERR, w) else f (q (tasks w)) (tick w))"
  by (simp add: and_then_def query_def)

lemma transaction_then_all_or_nothing:
  assumes "fst (and_then (transaction body) (\<lambda>_. result v) w) = Inl e"
  shows "tasks (snd (and_then (transaction body) (\<lambda>_. result v) w)) = tasks w"
proof (cases "transaction body w")
  case (Pair r w2)
  show ?thesis
  proof (cases r)
    case (Inl e')
    then have "tasks w2 = tasks w"
      using transaction_all_or_nothing[of body w e'] Pair by simp
    then show ?thesis using Pair Inl by (simp add: and_then_def)
  next
    case (Inr u)
    then show ?thesis using Pair assms by (simp add: and_then_def result_def)
  qed
qed

lemma reorderTask_all_or_nothing:
  assumes "fst (reorderTask now i dir w) = Inl e"
  shows "tasks (snd (reorderTask now i dir w)) = tasks w"
  using assms
  by (auto simp: reorderTask_def and_then_query Let_def result_def
           split: if_splits option.splits dest!: transaction_then_all_or_nothing)

text \<open>
  C1, on the state \<open>one_child\<close> with a storage that fails at the fourth statement:
  \<^verbatim>\<open>completeTask\<close> runs its statements outside any transaction, so the exception leaves
  the child done and the parent open, a state between the table before and the table
  after the whole call (the second equation). The same completion as a batch of one
  operation is rolled back by the transaction of \<^verbatim>\<open>applyOperations\<close> (the third).
\<close>

theorem completeTask_partial_on_failure:
  "completeTask ''09:05'' (Some ''01C'') (one_child\<lparr>io_budget := Some 3\<rparr>) =
     Some (Inl SQLITE_IOERR,
       \<lparr>tasks =
         [\<lparr>row_id = ''01P'', title = ''Ship release'', status = Todo,
            parent_id = None, position = 0, created_at = ''09:00'', updated_at = ''09:00''\<rparr>,
          \<lparr>row_id = ''01C'', title = ''Write tests'', status = Done,
            parent_id = Some ''01P'', position = 0, created_at = ''09:01'', updated_at = ''09:05''\<rparr>],
        undoStack = [], io_budget = Some 0\<rparr>)
   \<and> completeTask ''09:05'' (Some ''01C'') one_child =
     Some (Inr (),
       \<lparr>tasks =
         [\<lparr>row_id = ''01P'', title = ''Ship release'', status = Done,
            parent_id = None, position = 0, created_at = ''09:00'', updated_at = ''09:05''\<rparr>,
          \<lparr>row_id = ''01C'', title = ''Write tests'', status = Done,
            parent_id = Some ''01P'', position = 0, created_at = ''09:01'', updated_at = ''09:05''\<rparr>],
        undoStack = [], io_budget = None\<rparr>)
   \<and> applyOperations gen ''09:05'' [DoneOp ''01C''] (one_child\<lparr>io_budget := Some 3\<rparr>) =
     Some (Inl SQLITE_IOERR, one_child\<lparr>io_budget := Some 0\<rparr>)"
  by (simp add: one_child_eq run_defs autoCompleteParent.simps applyOperations_def resolveId_def)

subsection \<open>Moving\<close>

lemma moveTask_tasks:
  "tasks (snd (moveTask now (Some a) p w)) = tasks w
   \<or> tasks (snd (moveTask now (Some a) p w))
        = map (\<lambda>r. if Some (row_id r) = Some a
                     then r\<lparr>parent_id := p, position := select_next_position p (tasks w), updated_at := now\<rparr>
                     else r) (tasks w)"
proof (cases "io_budget w = Some 0")
  case True
  then show ?thesis by (simp add: moveTask_def and_then_def query_def)
next
  case False
  then have q: "query (select_next_position p) w = (Inr (select_next_position p (tasks w)), tick w)"
    by (simp add: query_def)
  show ?thesis
  proof (cases "sql_update_parent p (select_next_position p (tasks w)) now (Some a) (tasks w)")
    case (Inl e)
    then have "tasks (snd (moveTask now (Some a) p w)) = tasks w"
      by (simp add: moveTask_def and_then_def q exec_def)
    then show ?thesis by simp
  next
    case (Inr t')
    then have t': "t' = map (\<lambda>r. if Some (row_id r) = Some a
                     then r\<lparr>parent_id := p, position := select_next_position p (tasks w), updated_at := now\<rparr>
                     else r) (tasks w)"
      by (auto simp: sql_update_parent_def split: if_splits)
    have "tasks (snd (moveTask now (Some a) p w)) = tasks w
          \<or> tasks (snd (moveTask now (Some a) p w)) = t'"
      using Inr by (simp add: moveTask_def and_then_def q exec_def)
    then show ?thesis using t' by simp
  qed
qed

lemma moveTask_no_faults:
  assumes "io_budget w = None" "a \<in> set (map row_id (tasks w))" "b \<in> set (map row_id (tasks w))"
  shows "moveTask now (Some a) (Some b) w =
    (Inr (), w\<lparr>tasks := map (\<lambda>r. if Some (row_id r) = Some a
                     then r\<lparr>parent_id := Some b, position := select_next_position (Some b) (tasks w), updated_at := now\<rparr>
                     else r) (tasks w)\<rparr>)"
proof -
  have "sql_update_parent (Some b) (select_next_position (Some b) (tasks w)) now (Some a) (tasks w)
        = Inr (map (\<lambda>r. if Some (row_id r) = Some a
                     then r\<lparr>parent_id := Some b, position := select_next_position (Some b) (tasks w), updated_at := now\<rparr>
                     else r) (tasks w))"
    using assms(3) by (simp add: sql_update_parent_def)
  then show ?thesis
    using assms(1) by (simp add: moveTask_def and_then_def query_no_faults exec_no_faults)
qed

lemma applyOperations_single_move:
  assumes "a \<noteq> []" and "b \<noteq> []"
  shows "applyOperations gen now [Move a (Some b)] w
         = Some (commit_or_rollback w (moveTask now (Some a) (Some b) w))"
proof -
  have r: "resolveId Map.empty (Some a) = Some a" "resolveId Map.empty (Some b) = Some b"
    using assms by (simp_all add: resolveId_nonempty)
  obtain res w1 where m: "moveTask now (Some a) (Some b) w = (res, w1)"
    by (cases "moveTask now (Some a) (Some b) w")
  show ?thesis
    by (cases res) (simp_all add: applyOperations_def r m)
qed

text \<open>
  C2, as the code has it. \<^verbatim>\<open>moveTask\<close> checks nothing but the foreign key. On a table
  whose parent relation is acyclic, a move of \<open>a\<close> to the root level, or under a task that
  is neither \<open>a\<close> nor a descendant of \<open>a\<close>, leaves the relation acyclic, whatever the
  storage does. A move of an existing \<open>a\<close> under itself or under one of its descendants is
  not rejected: with a working storage it returns normally, \<open>a\<close> gets that parent, and the
  relation has a cycle. A batch of one \<^verbatim>\<open>move\<close> operation is that call of \<^verbatim>\<open>moveTask\<close>
  in a transaction.
\<close>

theorem moveTask_acyclicity:
  assumes "acyclic (parent_rel (tasks w))"
  shows "(newParentId = None \<or> (\<exists>b. newParentId = Some b \<and> (b, a) \<notin> (parent_rel (tasks w))\<^sup>*)
          \<longrightarrow> acyclic (parent_rel (tasks (snd (moveTask now (Some a) newParentId w)))))
       \<and> (\<forall>b. io_budget w = None \<and> a \<in> set (map row_id (tasks w)) \<and> b \<in> set (map row_id (tasks w))
              \<and> (b, a) \<in> (parent_rel (tasks w))\<^sup>*
          \<longrightarrow> fst (moveTask now (Some a) (Some b) w) = Inr ()
              \<and> (a, b) \<in> parent_rel (tasks (snd (moveTask now (Some a) (Some b) w)))
              \<and> \<not> acyclic (parent_rel (tasks (snd (moveTask now (Some a) (Some b) w)))))
       \<and> (\<forall>b gen. a \<noteq> [] \<and> b \<noteq> []
          \<longrightarrow> applyOperations gen now [Move a (Some b)] w
              = Some (commit_or_rollback w (moveTask now (Some a) (Some b) w)))"
proof (intro conjI impI allI)
  let ?R = "parent_rel (tasks w)"
  let ?R' = "?R - {a} \<times> UNIV"
  let ?new = "map (\<lambda>r. if Some (row_id r) = Some a
                     then r\<lparr>parent_id := newParentId,
                            position := select_next_position newParentId (tasks w), updated_at := now\<rparr>
                     else r) (tasks w)"
  have sub: "?R' \<subseteq> ?R" by auto
  assume ok: "newParentId = None \<or> (\<exists>b. newParentId = Some b \<and> (b, a) \<notin> ?R\<^sup>*)"
  have ac': "acyclic ?R'" using assms sub by (rule acyclic_subset)
  have "acyclic (?R' \<union> (if a \<in> set (map row_id (tasks w))
                 then (case newParentId of None \<Rightarrow> {} | Some b \<Rightarrow> {(a, b)}) else {}))"
  proof (cases newParentId)
    case None
    then show ?thesis using ac' by simp
  next
    case (Some b)
    with ok have "(b, a) \<notin> ?R\<^sup>*" by simp
    then have "(b, a) \<notin> ?R'\<^sup>*" using rtrancl_mono[OF sub] by blast
    then show ?thesis using ac' Some by simp
  qed
  then have "acyclic (parent_rel ?new)"
    by (simp only: parent_rel_reparent)
  moreover have "tasks (snd (moveTask now (Some a) newParentId w)) = tasks w
      \<or> tasks (snd (moveTask now (Some a) newParentId w)) = ?new"
    by (rule moveTask_tasks)
  ultimately show "acyclic (parent_rel (tasks (snd (moveTask now (Some a) newParentId w))))"
    using assms by (elim disjE) (simp_all only:)
next
  fix b
  let ?R = "parent_rel (tasks w)"
  let ?R' = "?R - {a} \<times> UNIV"
  assume h: "io_budget w = None \<and> a \<in> set (map row_id (tasks w)) \<and> b \<in> set (map row_id (tasks w))
              \<and> (b, a) \<in> ?R\<^sup>*"
  let ?w' = "snd (moveTask now (Some a) (Some b) w)"
  have mv: "moveTask now (Some a) (Some b) w =
    (Inr (), w\<lparr>tasks := map (\<lambda>r. if Some (row_id r) = Some a
                     then r\<lparr>parent_id := Some b, position := select_next_position (Some b) (tasks w), updated_at := now\<rparr>
                     else r) (tasks w)\<rparr>)"
    using h by (intro moveTask_no_faults) simp_all
  show "fst (moveTask now (Some a) (Some b) w) = Inr ()" using mv by simp
  have "tasks ?w' = map (\<lambda>r. if Some (row_id r) = Some a
                     then r\<lparr>parent_id := Some b, position := select_next_position (Some b) (tasks w), updated_at := now\<rparr>
                     else r) (tasks w)"
    by (simp add: mv)
  then have "parent_rel (tasks ?w') = ?R' \<union> (if a \<in> set (map row_id (tasks w))
                 then (case Some b of None \<Rightarrow> {} | Some b \<Rightarrow> {(a, b)}) else {})"
    by (simp only: parent_rel_reparent)
  then have rel: "parent_rel (tasks ?w') = insert (a, b) ?R'"
    using h by simp
  show "(a, b) \<in> parent_rel (tasks ?w')" using rel by simp
  have "(b, a) \<in> ?R'\<^sup>*" using h by (intro rtrancl_avoiding_target) simp
  then have "(b, a) \<in> (insert (a, b) ?R')\<^sup>*"
    using rtrancl_mono[of ?R' "insert (a, b) ?R'"] by blast
  then have "(a, a) \<in> (insert (a, b) ?R')\<^sup>+"
    by (intro rtrancl_into_trancl2[of a b]) simp_all
  then show "\<not> acyclic (parent_rel (tasks ?w'))"
    unfolding rel acyclic_def by blast
next
  fix b :: string and gen :: "nat \<Rightarrow> string"
  assume "a \<noteq> [] \<and> b \<noteq> []"
  then show "applyOperations gen now [Move a (Some b)] w
              = Some (commit_or_rollback w (moveTask now (Some a) (Some b) w))"
    by (intro applyOperations_single_move) simp_all
qed

theorem moveTask_under_descendant_counterexample:
  "acyclic (parent_rel (tasks one_child))
   \<and> (''01C'', ''01P'') \<in> (parent_rel (tasks one_child))\<^sup>+
   \<and> moveTask ''09:05'' (Some ''01P'') (Some ''01C'') one_child =
       (Inr (), one_child\<lparr>tasks :=
         [\<lparr>row_id = ''01P'', title = ''Ship release'', status = Todo,
            parent_id = Some ''01C'', position = 0, created_at = ''09:00'', updated_at = ''09:05''\<rparr>,
          \<lparr>row_id = ''01C'', title = ''Write tests'', status = Todo,
            parent_id = Some ''01P'', position = 0, created_at = ''09:01'', updated_at = ''09:01''\<rparr>]\<rparr>)
   \<and> tasks (snd (moveTask ''09:05'' (Some ''01P'') (Some ''01C'') one_child)) \<noteq> tasks one_child
   \<and> \<not> acyclic (parent_rel (tasks (snd (moveTask ''09:05'' (Some ''01P'') (Some ''01C'') one_child))))
   \<and> applyOperations (\<lambda>k. ''01X'') ''09:05'' [Move ''01P'' (Some ''01C'')] one_child
       = Some (moveTask ''09:05'' (Some ''01P'') (Some ''01C'') one_child)"
proof -
  have 1: "acyclic (parent_rel (tasks one_child))"
    by (simp add: parent_rel_one_child acyclic_empty)
  have 2: "(''01C'', ''01P'') \<in> (parent_rel (tasks one_child))\<^sup>+"
    by (simp add: parent_rel_one_child r_into_trancl')
  have 3: "moveTask ''09:05'' (Some ''01P'') (Some ''01C'') one_child =
       (Inr (), one_child\<lparr>tasks :=
         [\<lparr>row_id = ''01P'', title = ''Ship release'', status = Todo,
            parent_id = Some ''01C'', position = 0, created_at = ''09:00'', updated_at = ''09:05''\<rparr>,
          \<lparr>row_id = ''01C'', title = ''Write tests'', status = Todo,
            parent_id = Some ''01P'', position = 0, created_at = ''09:01'', updated_at = ''09:01''\<rparr>]\<rparr>)"
    by (simp add: one_child_eq run_defs)
  have 4: "tasks (snd (moveTask ''09:05'' (Some ''01P'') (Some ''01C'') one_child)) \<noteq> tasks one_child"
    unfolding 3 by (simp add: one_child_eq)
  have 5: "\<not> acyclic (parent_rel (tasks (snd (moveTask ''09:05'' (Some ''01P'') (Some ''01C'') one_child))))"
    unfolding 3 by (simp add: parent_rel_def acyclic_empty rtrancl_insert)
  have 6: "applyOperations (\<lambda>k. ''01X'') ''09:05'' [Move ''01P'' (Some ''01C'')] one_child
       = Some (moveTask ''09:05'' (Some ''01P'') (Some ''01C'') one_child)"
    unfolding 3 by (simp add: applyOperations_def resolveId_def truthy_def 3 commit_or_rollback_def)
  show ?thesis using 1 2 3 4 5 6 by (intro conjI)
qed

theorem moveTask_acyclicity_witness:
  "acyclic (parent_rel (tasks one_child))
   \<and> (''01P'', ''01C'') \<notin> (parent_rel (tasks one_child))\<^sup>*
   \<and> acyclic (parent_rel (tasks (snd (moveTask ''09:05'' (Some ''01C'') None one_child))))
   \<and> acyclic (parent_rel (tasks (snd (moveTask ''09:05'' (Some ''01C'') (Some ''01P'') one_child))))
   \<and> io_budget one_child = None
   \<and> (''01C'', ''01P'') \<in> (parent_rel (tasks one_child))\<^sup>*
   \<and> \<not> acyclic (parent_rel (tasks (snd (moveTask ''09:05'' (Some ''01P'') (Some ''01C'') one_child))))
   \<and> applyOperations (\<lambda>k. ''01X'') ''09:05'' [Move ''01P'' (Some ''01C'')] one_child
       = Some (commit_or_rollback one_child (moveTask ''09:05'' (Some ''01P'') (Some ''01C'') one_child))"
proof -
  have ac: "acyclic (parent_rel (tasks one_child))"
    by (simp add: parent_rel_one_child acyclic_empty)
  have n: "(''01P'', ''01C'') \<notin> (parent_rel (tasks one_child))\<^sup>*"
    by (simp add: parent_rel_one_child rtrancl_insert)
  have d: "(''01C'', ''01P'') \<in> (parent_rel (tasks one_child))\<^sup>*"
    by (simp add: parent_rel_one_child rtrancl_insert)
  have b: "io_budget one_child = None" "''01P'' \<in> set (map row_id (tasks one_child))"
    "''01C'' \<in> set (map row_id (tasks one_child))"
    by (simp_all add: one_child_eq)
  from moveTask_acyclicity[OF ac, of None "''01C''" "''09:05''"]
  have 1: "acyclic (parent_rel (tasks (snd (moveTask ''09:05'' (Some ''01C'') None one_child))))"
    by blast
  from moveTask_acyclicity[OF ac, of "Some ''01P''" "''01C''" "''09:05''"] n
  have 2: "acyclic (parent_rel (tasks (snd (moveTask ''09:05'' (Some ''01C'') (Some ''01P'') one_child))))"
    by blast
  from moveTask_acyclicity[OF ac, of None "''01P''" "''09:05''"] b d
  have 3: "\<not> acyclic (parent_rel (tasks (snd (moveTask ''09:05'' (Some ''01P'') (Some ''01C'') one_child))))"
    by blast
  from moveTask_acyclicity[OF ac, of None "''01P''" "''09:05''"]
  have "\<forall>b gen. ''01P'' \<noteq> [] \<and> b \<noteq> []
          \<longrightarrow> applyOperations gen ''09:05'' [Move ''01P'' (Some b)] one_child
              = Some (commit_or_rollback one_child (moveTask ''09:05'' (Some ''01P'') (Some b) one_child))"
    by (elim conjE)
  then have 4: "applyOperations (\<lambda>k. ''01X'') ''09:05'' [Move ''01P'' (Some ''01C'')] one_child
       = Some (commit_or_rollback one_child (moveTask ''09:05'' (Some ''01P'') (Some ''01C'') one_child))"
    by simp
  show ?thesis using ac n 1 2 b(1) d 3 4 by (intro conjI)
qed

subsection \<open>The cascade\<close>

lemma cascade_frontier:
  assumes "(x, k) \<in> (parent_rel t)\<^sup>+" and "k \<in> set ks"
  shows "(\<exists>d \<in> set t. parent_id d \<in> Some ` set ks \<and> row_id d = x)
       \<or> (\<exists>d \<in> set t. parent_id d \<in> Some ` set ks
              \<and> (x, row_id d) \<in> (parent_rel (filter (\<lambda>r. parent_id r \<notin> Some ` set ks) t))\<^sup>+)"
  using assms(1)
proof (induction rule: converse_trancl_induct)
  case (base y)
  then obtain ry where "ry \<in> set t" "row_id ry = y" "parent_id ry = Some k"
    by (auto simp: parent_rel_iff)
  then show ?case using assms(2) by blast
next
  case (step y z)
  let ?t1 = "filter (\<lambda>r. parent_id r \<notin> Some ` set ks) t"
  from step.hyps(1) obtain ry where ry: "ry \<in> set t" "row_id ry = y" "parent_id ry = Some z"
    by (auto simp: parent_rel_iff)
  show ?case
  proof (cases "parent_id ry \<in> Some ` set ks")
    case True
    then show ?thesis using ry by blast
  next
    case False
    then have yz: "(y, z) \<in> parent_rel ?t1"
      using ry by (auto simp: parent_rel_iff)
    from step.IH show ?thesis
    proof (elim disjE bexE conjE)
      fix d assume d: "d \<in> set t" "parent_id d \<in> Some ` set ks" "row_id d = z"
      then have "(y, row_id d) \<in> (parent_rel ?t1)\<^sup>+" using yz by auto
      then show ?thesis using d by blast
    next
      fix d assume d: "d \<in> set t" "parent_id d \<in> Some ` set ks"
        "(z, row_id d) \<in> (parent_rel ?t1)\<^sup>+"
      then have "(y, row_id d) \<in> (parent_rel ?t1)\<^sup>+"
        using yz by (meson trancl_into_trancl2)
      then show ?thesis using d by blast
    qed
  qed
qed

lemma cascade_correct:
  "distinct (map row_id t) \<Longrightarrow> cascade d ks t = Inr t' \<Longrightarrow>
   t' = filter (\<lambda>r. \<not> (\<exists>k \<in> set ks. (row_id r, k) \<in> (parent_rel t)\<^sup>+)) t"
proof (induction d ks t rule: cascade.induct)
  case (1 d ks t)
  let ?D = "\<lambda>r. parent_id r \<in> Some ` set ks"
  let ?t1 = "filter (\<lambda>r. parent_id r \<notin> Some ` set ks) t"
  let ?ks1 = "map row_id (filter ?D t)"
  let ?Q = "\<lambda>r. \<not> (\<exists>k \<in> set ks. (row_id r, k) \<in> (parent_rel t)\<^sup>+)"
  show ?case
  proof (cases "ks = []")
    case True
    then have "t' = t"
      using "1.prems"(2) by (subst (asm) cascade.simps) simp
    moreover have "filter ?Q t = t" using True by simp
    ultimately show ?thesis by simp
  next
    case False
    have lt: "\<not> SQLITE_MAX_TRIGGER_DEPTH \<le> d"
      using "1.prems"(2) False by (subst (asm) cascade.simps) (auto split: if_splits)
    have rec: "cascade (Suc d) ?ks1 ?t1 = Inr t'"
      using "1.prems"(2) False lt by (subst (asm) cascade.simps) simp
    have d1: "distinct (map row_id ?t1)" using "1.prems"(1) by (rule distinct_map_filter)
    have IH: "t' = filter (\<lambda>r. \<not> (\<exists>k \<in> set ?ks1. (row_id r, k) \<in> (parent_rel ?t1)\<^sup>+)) ?t1"
      using "1.IH"[OF False lt d1 rec] .
    have sub: "(parent_rel ?t1)\<^sup>+ \<subseteq> (parent_rel t)\<^sup>+"
      by (intro trancl_mono_subset parent_rel_filter_subset)
    have eq: "(\<not> ?D r \<and> \<not> (\<exists>k \<in> set ?ks1. (row_id r, k) \<in> (parent_rel ?t1)\<^sup>+)) \<longleftrightarrow> ?Q r"
      if r: "r \<in> set t" for r
    proof
      assume a: "\<not> ?D r \<and> \<not> (\<exists>k \<in> set ?ks1. (row_id r, k) \<in> (parent_rel ?t1)\<^sup>+)"
      show "?Q r"
      proof
        assume "\<exists>k \<in> set ks. (row_id r, k) \<in> (parent_rel t)\<^sup>+"
        then obtain k where k: "k \<in> set ks" "(row_id r, k) \<in> (parent_rel t)\<^sup>+" by blast
        from cascade_frontier[OF k(2) k(1)] show False
        proof (elim disjE bexE conjE)
          fix d assume d: "d \<in> set t" "?D d" "row_id d = row_id r"
          then have "d = r" using "1.prems"(1) r by (meson distinct_map inj_onD)
          then show False using a d by simp
        next
          fix d assume d: "d \<in> set t" "?D d" "(row_id r, row_id d) \<in> (parent_rel ?t1)\<^sup>+"
          then have "row_id d \<in> set ?ks1" by auto
          then show False using a d(3) by blast
        qed
      qed
    next
      assume q: "?Q r"
      have "\<not> ?D r"
      proof
        assume "?D r"
        then obtain k where "k \<in> set ks" "parent_id r = Some k" by auto
        then have "(row_id r, k) \<in> parent_rel t" using r by (auto simp: parent_rel_iff)
        then have "(row_id r, k) \<in> (parent_rel t)\<^sup>+" by (rule r_into_trancl)
        then show False using q \<open>k \<in> set ks\<close> by blast
      qed
      moreover have "\<not> (\<exists>k \<in> set ?ks1. (row_id r, k) \<in> (parent_rel ?t1)\<^sup>+)"
      proof
        assume "\<exists>k \<in> set ?ks1. (row_id r, k) \<in> (parent_rel ?t1)\<^sup>+"
        then obtain d where d: "d \<in> set t" "?D d" "(row_id r, row_id d) \<in> (parent_rel ?t1)\<^sup>+"
          by auto
        from d(2) obtain k where k: "k \<in> set ks" "parent_id d = Some k" by auto
        then have "(row_id d, k) \<in> parent_rel t" using d(1) by (auto simp: parent_rel_iff)
        moreover have "(row_id r, row_id d) \<in> (parent_rel t)\<^sup>+" using d(3) sub by blast
        ultimately have "(row_id r, k) \<in> (parent_rel t)\<^sup>+" by (rule trancl_into_trancl[rotated])
        then show False using q k(1) by blast
      qed
      ultimately show "\<not> ?D r \<and> \<not> (\<exists>k \<in> set ?ks1. (row_id r, k) \<in> (parent_rel ?t1)\<^sup>+)"
        by simp
    qed
    have "t' = filter (\<lambda>r. \<not> ?D r \<and> \<not> (\<exists>k \<in> set ?ks1. (row_id r, k) \<in> (parent_rel ?t1)\<^sup>+)) t"
      by (subst IH) (simp only: filter_filter)
    also have "\<dots> = filter ?Q t"
      using eq by (intro filter_cong refl) blast
    finally show ?thesis .
  qed
qed

text \<open>
  When the cascade fails: the rows deleted at nesting level \<open>d\<close> have a row
  \<open>SQLITE_MAX_TRIGGER_DEPTH - d\<close> levels below one of them.
\<close>

lemma relpow_subset:
  fixes R S :: "('a \<times> 'a) set"
  shows "R \<subseteq> S \<Longrightarrow> R ^^ n \<subseteq> S ^^ n"
  by (induction n) auto

lemma parent_rel_level_restrict:
  assumes "set ks \<inter> row_id ` set t = {}"
  shows "(x, y) \<in> parent_rel t ^^ n \<Longrightarrow> y \<in> row_id ` set t \<Longrightarrow>
         (x, y) \<in> parent_rel (filter (\<lambda>r. parent_id r \<notin> Some ` set ks) t) ^^ n"
proof (induction n arbitrary: y)
  case 0
  then show ?case by simp
next
  case (Suc n)
  let ?t1 = "filter (\<lambda>r. parent_id r \<notin> Some ` set ks) t"
  from Suc.prems(1) obtain z where z: "(x, z) \<in> parent_rel t ^^ n" "(z, y) \<in> parent_rel t"
    by auto
  from z(2) obtain r where r: "r \<in> set t" "row_id r = z" "parent_id r = Some y"
    by (auto simp: parent_rel_iff)
  have "y \<notin> set ks" using Suc.prems(2) assms by auto
  then have "parent_id r \<notin> Some ` set ks" using r(3) by auto
  then have zy: "(z, y) \<in> parent_rel ?t1" using r by (auto simp: parent_rel_iff)
  have "z \<in> row_id ` set t" using r by auto
  then have "(x, z) \<in> parent_rel ?t1 ^^ n" using Suc.IH z(1) by blast
  then show ?case using zy by auto
qed

lemma level_step:
  assumes "set ks \<inter> row_id ` set t = {}"
  shows "(\<exists>k \<in> set ks. (x, k) \<in> parent_rel t ^^ Suc n)
         \<longleftrightarrow> (\<exists>k \<in> set (map row_id (filter (\<lambda>r. parent_id r \<in> Some ` set ks) t)).
                (x, k) \<in> parent_rel (filter (\<lambda>r. parent_id r \<notin> Some ` set ks) t) ^^ n)"
    (is "?L \<longleftrightarrow> ?R")
proof
  let ?t1 = "filter (\<lambda>r. parent_id r \<notin> Some ` set ks) t"
  assume ?L
  then obtain k y where k: "k \<in> set ks" "(x, y) \<in> parent_rel t ^^ n" "(y, k) \<in> parent_rel t"
    by auto
  from k(3) obtain r where r: "r \<in> set t" "row_id r = y" "parent_id r = Some k"
    by (auto simp: parent_rel_iff)
  have "y \<in> set (map row_id (filter (\<lambda>r. parent_id r \<in> Some ` set ks) t))"
    using r k(1) by force
  moreover have "(x, y) \<in> parent_rel ?t1 ^^ n"
    using parent_rel_level_restrict[OF assms k(2)] r by auto
  ultimately show ?R by blast
next
  let ?t1 = "filter (\<lambda>r. parent_id r \<notin> Some ` set ks) t"
  assume ?R
  then obtain r where r: "r \<in> set t" "parent_id r \<in> Some ` set ks"
    "(x, row_id r) \<in> parent_rel ?t1 ^^ n"
    by auto
  from r(2) obtain k where k: "k \<in> set ks" "parent_id r = Some k" by auto
  have "(row_id r, k) \<in> parent_rel t" using r(1) k(2) by (auto simp: parent_rel_iff)
  moreover have "(x, row_id r) \<in> parent_rel t ^^ n"
    using r(3) relpow_subset[OF parent_rel_filter_subset] by blast
  ultimately have "(x, k) \<in> parent_rel t ^^ Suc n" by auto
  then show ?L using k(1) by blast
qed

lemma cascade_fails_iff:
  "distinct (map row_id t) \<Longrightarrow> set ks \<inter> row_id ` set t = {} \<Longrightarrow>
   (\<exists>e. cascade d ks t = Inl e)
   \<longleftrightarrow> (\<exists>x. \<exists>k \<in> set ks. (x, k) \<in> parent_rel t ^^ (SQLITE_MAX_TRIGGER_DEPTH - d))"
proof (induction d ks t rule: cascade.induct)
  case (1 d ks t)
  let ?D = "\<lambda>r. parent_id r \<in> Some ` set ks"
  let ?t1 = "filter (\<lambda>r. parent_id r \<notin> Some ` set ks) t"
  let ?ks1 = "map row_id (filter ?D t)"
  show ?case
  proof (cases "ks = []")
    case True
    then have "cascade d ks t = Inr t" by (subst cascade.simps) simp
    then show ?thesis using True by simp
  next
    case False
    then obtain k where k: "k \<in> set ks" by (cases ks) auto
    show ?thesis
    proof (cases "SQLITE_MAX_TRIGGER_DEPTH \<le> d")
      case True
      then have "cascade d ks t = Inl SQLITE_ERROR"
        using False by (subst cascade.simps) simp
      moreover have "(k, k) \<in> parent_rel t ^^ (SQLITE_MAX_TRIGGER_DEPTH - d)"
        using True by simp
      ultimately show ?thesis using k by blast
    next
      case lt: False
      have d1: "distinct (map row_id ?t1)" using "1.prems"(1) by (rule distinct_map_filter)
      have disj1: "set ?ks1 \<inter> row_id ` set ?t1 = {}"
      proof (rule ccontr)
        assume "set ?ks1 \<inter> row_id ` set ?t1 \<noteq> {}"
        then obtain a b where ab: "a \<in> set t" "?D a" "b \<in> set t" "\<not> ?D b" "row_id a = row_id b"
          by auto
        then have "a = b" using "1.prems"(1) by (meson distinct_map inj_onD)
        then show False using ab by simp
      qed
      have step: "SQLITE_MAX_TRIGGER_DEPTH - d = Suc (SQLITE_MAX_TRIGGER_DEPTH - Suc d)"
        using lt by simp
      have "cascade d ks t = cascade (Suc d) ?ks1 ?t1"
        using False lt by (subst cascade.simps) simp
      then have "(\<exists>e. cascade d ks t = Inl e)
          \<longleftrightarrow> (\<exists>x. \<exists>k \<in> set ?ks1. (x, k) \<in> parent_rel ?t1 ^^ (SQLITE_MAX_TRIGGER_DEPTH - Suc d))"
        using "1.IH"[OF False lt d1 disj1] by simp
      also have "\<dots> \<longleftrightarrow> (\<exists>x. \<exists>k \<in> set ks. (x, k) \<in> parent_rel t ^^ (SQLITE_MAX_TRIGGER_DEPTH - d))"
        unfolding step using level_step[OF "1.prems"(2)] by simp
      finally show ?thesis .
    qed
  qed
qed

lemma parent_rel_without_row:
  "parent_rel (filter (\<lambda>r. Some (row_id r) \<noteq> Some i) t) = parent_rel t - {i} \<times> UNIV"
  by (auto simp: parent_rel_iff)

lemma descendants_avoiding:
  "(x, i) \<in> (parent_rel t)\<^sup>* \<longleftrightarrow> x = i \<or> (x, i) \<in> (parent_rel t - {i} \<times> UNIV)\<^sup>+"
proof
  assume "(x, i) \<in> (parent_rel t)\<^sup>*"
  then have "(x, i) \<in> (parent_rel t - {i} \<times> UNIV)\<^sup>*" by (rule rtrancl_avoiding_target)
  then show "x = i \<or> (x, i) \<in> (parent_rel t - {i} \<times> UNIV)\<^sup>+"
    by (auto dest: rtranclD)
next
  assume "x = i \<or> (x, i) \<in> (parent_rel t - {i} \<times> UNIV)\<^sup>+"
  moreover have "(parent_rel t - {i} \<times> UNIV)\<^sup>+ \<subseteq> (parent_rel t)\<^sup>+"
    by (intro trancl_mono_subset) auto
  ultimately show "(x, i) \<in> (parent_rel t)\<^sup>*"
    by (auto intro: trancl_into_rtrancl)
qed

lemma descendants_below:
  "(x, i) \<in> (parent_rel t)\<^sup>* \<longleftrightarrow> (\<exists>k. x \<in> below t i k)"
proof -
  have "(x, i) \<in> (parent_rel t)\<^sup>* \<longleftrightarrow> (x, i) \<in> (parent_rel t - {i} \<times> UNIV)\<^sup>*"
    using descendants_avoiding[of x i t] by (auto simp: rtrancl_eq_or_trancl)
  then show ?thesis by (simp add: below_def rtrancl_power)
qed

lemma sql_delete_correct:
  assumes "distinct (map row_id t)" and "i \<in> set (map row_id t)"
  shows "sql_delete (Some i) t =
           (if below t i SQLITE_MAX_TRIGGER_DEPTH \<noteq> {} then Inl SQLITE_ERROR
            else Inr (filter (\<lambda>r. (row_id r, i) \<notin> (parent_rel t)\<^sup>*) t))"
proof -
  let ?t0 = "filter (\<lambda>r. Some (row_id r) \<noteq> Some i) t"
  let ?ks = "map row_id (filter (\<lambda>r. Some (row_id r) = Some i) t)"
  have ks: "set ?ks = {i}" using assms(2) by auto
  have d0: "distinct (map row_id ?t0)" using assms(1) by (rule distinct_map_filter)
  have disj: "set ?ks \<inter> row_id ` set ?t0 = {}" unfolding ks by auto
  have ex: "\<exists>r \<in> set t. Some (row_id r) = Some i" using assms(2) by auto
  have del: "sql_delete (Some i) t = cascade 0 ?ks ?t0"
    unfolding sql_delete_def using ex by (simp only: if_True)
  have fails: "(\<exists>e. cascade 0 ?ks ?t0 = Inl e) \<longleftrightarrow> below t i SQLITE_MAX_TRIGGER_DEPTH \<noteq> {}"
    using cascade_fails_iff[OF d0 disj, of 0]
    unfolding ks parent_rel_without_row below_def by auto
  show ?thesis
  proof (cases "cascade 0 ?ks ?t0")
    case (Inl e)
    then have "e = SQLITE_ERROR" by (rule cascade_error)
    then show ?thesis using Inl fails del by auto
  next
    case (Inr t')
    have "t' = filter (\<lambda>r. \<not> (\<exists>k \<in> set ?ks. (row_id r, k) \<in> (parent_rel ?t0)\<^sup>+)) ?t0"
      using d0 Inr by (rule cascade_correct)
    also have "\<dots> = filter (\<lambda>r. (row_id r, i) \<notin> (parent_rel t - {i} \<times> UNIV)\<^sup>+) ?t0"
      unfolding ks parent_rel_without_row by simp
    also have "\<dots> = filter (\<lambda>r. Some (row_id r) \<noteq> Some i \<and> (row_id r, i) \<notin> (parent_rel t - {i} \<times> UNIV)\<^sup>+) t"
      by (simp only: filter_filter)
    also have "\<dots> = filter (\<lambda>r. (row_id r, i) \<notin> (parent_rel t)\<^sup>*) t"
      by (intro filter_cong refl) (simp add: descendants_avoiding)
    finally have "t' = filter (\<lambda>r. (row_id r, i) \<notin> (parent_rel t)\<^sup>*) t" .
    moreover have "\<not> below t i SQLITE_MAX_TRIGGER_DEPTH \<noteq> {}"
      using fails Inr by simp
    ultimately show ?thesis using Inr del by simp
  qed
qed

lemma below_small:
  assumes "distinct (map row_id t)" and "i \<in> set (map row_id t)"
    and "length t \<le> SQLITE_MAX_TRIGGER_DEPTH"
  shows "below t i SQLITE_MAX_TRIGGER_DEPTH = {}"
proof (rule ccontr)
  assume "below t i SQLITE_MAX_TRIGGER_DEPTH \<noteq> {}"
  then have "sql_delete (Some i) t = Inl SQLITE_ERROR"
    using sql_delete_correct[OF assms(1,2)] by simp
  then show False using sql_delete_small[OF assms(3), of "Some i"] by simp
qed

subsection \<open>A chain of tasks, each the only child of the one before\<close>

lemma chain_id_inj [simp]: "chain_id j = chain_id k \<longleftrightarrow> j = k"
proof
  assume "chain_id j = chain_id k"
  then have "length (chain_id j) = length (chain_id k)" by simp
  then show "j = k" by (simp add: chain_id_def)
qed simp

lemma row_id_chain_row [simp]: "row_id (chain_row k) = chain_id k"
  by (simp add: chain_row_def)

lemma chain_children:
  "filter (\<lambda>r. parent_id r \<in> Some ` set [chain_id j]) (map chain_row [Suc j..<n])
     = (if Suc j < n then [chain_row (Suc j)] else [])"
  "filter (\<lambda>r. parent_id r \<notin> Some ` set [chain_id j]) (map chain_row [Suc j..<n])
     = map chain_row [Suc (Suc j)..<n]"
proof -
  have c: "parent_id (chain_row k) \<in> Some ` set [chain_id j] \<longleftrightarrow> k = Suc j" for k
    by (cases k) (auto simp: chain_row_def)
  have "filter (\<lambda>r. parent_id r \<in> Some ` set [chain_id j]) (map chain_row [Suc j..<n])
        = map chain_row (filter (\<lambda>k. k = Suc j) [Suc j..<n])"
    by (simp only: filter_map o_def c)
  also have "\<dots> = (if Suc j < n then [chain_row (Suc j)] else [])"
    by (simp add: upt_conv_Cons filter_empty_conv)
  finally show "filter (\<lambda>r. parent_id r \<in> Some ` set [chain_id j]) (map chain_row [Suc j..<n])
     = (if Suc j < n then [chain_row (Suc j)] else [])" .
  have "filter (\<lambda>r. parent_id r \<notin> Some ` set [chain_id j]) (map chain_row [Suc j..<n])
        = map chain_row (filter (\<lambda>k. k \<noteq> Suc j) [Suc j..<n])"
    by (simp only: filter_map o_def c)
  also have "\<dots> = map chain_row [Suc (Suc j)..<n]"
    by (cases "Suc j < n") (simp_all add: upt_conv_Cons filter_id_conv)
  finally show "filter (\<lambda>r. parent_id r \<notin> Some ` set [chain_id j]) (map chain_row [Suc j..<n])
     = map chain_row [Suc (Suc j)..<n]" .
qed

lemma cascade_chain:
  "cascade d [chain_id j] (map chain_row [Suc j..<n])
     = (if SQLITE_MAX_TRIGGER_DEPTH \<le> d + (n - Suc j) then Inl SQLITE_ERROR else Inr [])"
proof (induction "n - Suc j" arbitrary: d j)
  case 0
  then have e: "[Suc j..<n] = []" "n - Suc j = 0" by simp_all
  show ?case
  proof (cases "SQLITE_MAX_TRIGGER_DEPTH \<le> d")
    case True
    then show ?thesis unfolding e by (subst cascade.simps) simp
  next
    case False
    have "cascade d [chain_id j] (map chain_row [Suc j..<n]) = cascade (Suc d) [] []"
      unfolding e using False by (subst cascade.simps) simp
    also have "\<dots> = Inr []" by (subst cascade.simps) simp
    finally show ?thesis using False e by simp
  qed
next
  case (Suc m)
  then have lt: "Suc j < n" and m: "m = n - Suc (Suc j)" by simp_all
  show ?case
  proof (cases "SQLITE_MAX_TRIGGER_DEPTH \<le> d")
    case True
    then show ?thesis by (subst cascade.simps) simp
  next
    case False
    have "cascade d [chain_id j] (map chain_row [Suc j..<n])
          = cascade (Suc d)
              (map row_id (filter (\<lambda>r. parent_id r \<in> Some ` set [chain_id j])
                             (map chain_row [Suc j..<n])))
              (filter (\<lambda>r. parent_id r \<notin> Some ` set [chain_id j]) (map chain_row [Suc j..<n]))"
      by (subst cascade.simps) (simp only: list.distinct if_False False)
    also have "\<dots> = cascade (Suc d) [chain_id (Suc j)] (map chain_row [Suc (Suc j)..<n])"
      by (simp only: chain_children lt if_True list.map row_id_chain_row)
    also have "\<dots> = (if SQLITE_MAX_TRIGGER_DEPTH \<le> Suc d + (n - Suc (Suc j))
                       then Inl SQLITE_ERROR else Inr [])"
      using m by (rule Suc.hyps(1))
    finally show ?thesis using lt by (simp add: Suc_diff_Suc)
  qed
qed

lemma sql_delete_chain:
  assumes "0 < n"
  shows "sql_delete (Some (chain_id 0)) (map chain_row [0..<n])
     = (if SQLITE_MAX_TRIGGER_DEPTH < n then Inl SQLITE_ERROR else Inr [])"
proof -
  let ?L = "map chain_row [Suc 0..<n]"
  have n: "map chain_row [0..<n] = chain_row 0 # ?L"
    using assms by (subst upt_rec) simp
  have ne: "row_id (chain_row k) \<noteq> chain_id 0" if "k \<in> set [Suc 0..<n]" for k
    using that by simp
  have rest: "filter (\<lambda>r. Some (row_id r) \<noteq> Some (chain_id 0)) ?L = ?L"
    using ne by (simp only: filter_id_conv set_map option.inject) blast
  have first: "filter (\<lambda>r. Some (row_id r) = Some (chain_id 0)) ?L = []"
    using ne by (simp only: filter_empty_conv set_map option.inject) blast
  have ex: "\<exists>r \<in> set (chain_row 0 # ?L). Some (row_id r) = Some (chain_id 0)"
    by (rule bexI[of _ "chain_row 0"]) simp_all
  have le: "(SQLITE_MAX_TRIGGER_DEPTH \<le> 0 + (n - Suc 0)) = (SQLITE_MAX_TRIGGER_DEPTH < n)"
    using assms by arith
  have "sql_delete (Some (chain_id 0)) (chain_row 0 # ?L)
        = cascade 0 (map row_id (filter (\<lambda>r. Some (row_id r) = Some (chain_id 0)) (chain_row 0 # ?L)))
            (filter (\<lambda>r. Some (row_id r) \<noteq> Some (chain_id 0)) (chain_row 0 # ?L))"
    unfolding sql_delete_def using ex by (simp only: if_True)
  also have "\<dots> = cascade 0 [chain_id 0] ?L"
    by (simp only: filter.simps rest first row_id_chain_row simp_thms if_True if_False list.map)
  also have "\<dots> = (if SQLITE_MAX_TRIGGER_DEPTH \<le> 0 + (n - Suc 0) then Inl SQLITE_ERROR else Inr [])"
    by (rule cascade_chain)
  finally show ?thesis by (simp only: n le)
qed

lemma deep_chain_distinct: "distinct (map row_id (tasks (deep_chain n)))"
proof -
  have "row_id \<circ> chain_row = chain_id"
    by (rule ext) simp
  moreover have "distinct (map chain_id [0..<n])"
    by (simp add: distinct_map inj_on_def)
  ultimately show ?thesis by (simp add: deep_chain_def)
qed

lemma deep_chain_first: "0 < n \<Longrightarrow> chain_id 0 \<in> set (map row_id (tasks (deep_chain n)))"
proof -
  assume "0 < n"
  then have "0 \<in> set [0..<n]" by simp
  then have "row_id (chain_row 0) \<in> set (map row_id (map chain_row [0..<n]))"
    by (simp only: set_map image_eqI)
  then show ?thesis by (simp only: deep_chain_def world.simps row_id_chain_row)
qed

lemma deep_chain_length: "length (tasks (deep_chain n)) = n"
  by (simp add: deep_chain_def)

lemma deep_chain_budget: "io_budget (deep_chain n) = None"
  by (simp add: deep_chain_def)

text \<open>The chain grows by one task with each \<^verbatim>\<open>addTask\<close> under the task added last.\<close>

lemma deep_chain_empty: "deep_chain 0 = empty_world"
  by (simp add: deep_chain_def empty_world_def)

lemma chain_row_parent:
  "parent_id (chain_row k) = (if n = 0 then None else Some (chain_id (n - 1))) \<longleftrightarrow> (k = n)"
  if "k \<le> n" for k n
  using that by (cases k; cases n) (auto simp: chain_row_def)

lemma deep_chain_grows:
  "addTask (chain_id n) ''09:00'' ''Step'' (if n = 0 then None else Some (chain_id (n - 1)))
     (deep_chain n)
   = (Inr \<lparr>task_id = chain_id n, task_title = ''Step'', task_status = Todo,
           task_parentId = (if n = 0 then None else Some (chain_id (n - 1))),
           task_position = 0\<rparr>, deep_chain (Suc n))"
proof -
  let ?p = "if n = 0 then None else Some (chain_id (n - 1))"
  have "parent_id (chain_row k) \<noteq> ?p" if "k < n" for k
    using chain_row_parent[of k n] that by simp
  then have none: "filter (\<lambda>r. parent_id r = ?p) (map chain_row [0..<n]) = []"
    by (simp only: filter_empty_conv set_map set_upt) auto
  have pos: "select_next_position ?p (tasks (deep_chain n)) = 0"
    unfolding select_next_position_def by (simp only: deep_chain_def world.simps none) simp
  have row: "\<lparr>row_id = chain_id n, title = ''Step'', status = Todo, parent_id = ?p, position = 0,
              created_at = ''09:00'', updated_at = ''09:00''\<rparr> = chain_row n"
    by (simp add: chain_row_def)
  have fresh: "chain_id n \<notin> set (map row_id (map chain_row [0..<n]))"
    by (auto simp: o_def)
  have par: "n \<noteq> 0 \<Longrightarrow> chain_id (n - 1) \<in> set (map row_id (map chain_row [0..<n] @ [chain_row n]))"
  proof -
    assume "n \<noteq> 0"
    then have "n - 1 \<in> set [0..<n]" by simp
    then have "row_id (chain_row (n - 1)) \<in> set (map row_id (map chain_row [0..<n]))"
      by (simp only: set_map image_eqI)
    then show ?thesis by simp
  qed
  have ins: "sql_insert (chain_row n) (tasks (deep_chain n)) = Inr (map chain_row [0..<Suc n])"
    unfolding sql_insert_def using fresh par
    by (simp only: deep_chain_def world.simps) (auto simp: chain_row_def)
  show ?thesis
    by (simp add: addTask_def and_then_def query_no_faults exec_no_faults result_def
        deep_chain_budget pos row ins) (simp add: deep_chain_def)
qed

lemma deleteTask_deep_chain:
  assumes "0 < n"
  shows "deleteTask (Some (chain_id 0)) (deep_chain n)
     = (if SQLITE_MAX_TRIGGER_DEPTH < n then (Inl SQLITE_ERROR, deep_chain n)
        else (Inr (), (deep_chain n)\<lparr>tasks := []\<rparr>))"
proof -
  have "sql_delete (Some (chain_id 0)) (tasks (deep_chain n))
     = (if SQLITE_MAX_TRIGGER_DEPTH < n then Inl SQLITE_ERROR else Inr [])"
    using sql_delete_chain[OF assms] by (simp only: deep_chain_def world.simps)
  then show ?thesis
    by (simp add: deleteTask_cases deep_chain_budget)
qed




subsection \<open>Completing\<close>

lemma sql_update_status_mark: "sql_update_status Done now (Some p) t = mark_done now {p} t"
  by (simp add: sql_update_status_def mark_done_def)

lemma mark_done_empty: "mark_done now {} t = t"
  by (simp add: mark_done_def)

lemma mark_done_twice: "mark_done now A (mark_done now B t) = mark_done now (A \<union> B) t"
  by (simp add: mark_done_def)

lemma parent_rel_Cons:
  "parent_rel (r # t) = (case parent_id r of None \<Rightarrow> {} | Some p \<Rightarrow> {(row_id r, p)}) \<union> parent_rel t"
  by (cases "parent_id r") (simp_all add: parent_rel_def)

lemma parent_rel_mark_done: "parent_rel (mark_done now M t) = parent_rel t"
proof (induction t)
  case Nil
  then show ?case by (simp add: mark_done_def)
next
  case (Cons r t)
  have "mark_done now M (r # t)
        = (if row_id r \<in> M then r\<lparr>status := Done, updated_at := now\<rparr> else r) # mark_done now M t"
    by (simp add: mark_done_def)
  then show ?case using Cons by (cases "parent_id r") (simp_all add: parent_rel_Cons)
qed

lemma parent_ids_mark_done: "parent_id ` set (mark_done now M t) = parent_id ` set t"
proof (induction t)
  case Nil
  then show ?case by (simp add: mark_done_def)
next
  case (Cons r t)
  have "mark_done now M (r # t)
        = (if row_id r \<in> M then r\<lparr>status := Done, updated_at := now\<rparr> else r) # mark_done now M t"
    by (simp add: mark_done_def)
  then show ?case using Cons by simp
qed

lemma parent_of_mark_done: "parent_of (mark_done now M t) c = parent_of t c"
  by (induction t) (auto simp: parent_of_def mark_done_def)

lemma parent_of_Some:
  assumes "parent_of t c = Some p"
  shows "(c, p) \<in> parent_rel t"
proof -
  from assms obtain r where f: "find (\<lambda>r. row_id r = c) t = Some r" and p: "parent_id r = Some p"
    by (auto simp: parent_of_def split: option.splits)
  from f have "r \<in> set t" "row_id r = c"
    by (auto simp: find_Some_iff)
  then show ?thesis using p unfolding parent_rel_iff by blast
qed

lemma select_parent_is_parent_of:
  "(case map_option parent_id (select_by_id (Some c) t) of None \<Rightarrow> None | Some p \<Rightarrow> p) = parent_of t c"
  by (simp add: select_by_id_def parent_of_def split: option.splits)

lemma length_filter_all: "length (filter P xs) = length xs \<longleftrightarrow> (\<forall>x \<in> set xs. P x)"
proof
  assume eq: "length (filter P xs) = length xs"
  show "\<forall>x \<in> set xs. P x"
  proof
    fix x assume "x \<in> set xs"
    then show "P x" using length_filter_less[of x xs P] eq by auto
  qed
next
  assume "\<forall>x \<in> set xs. P x"
  then have "filter P xs = xs" by (simp add: filter_id_conv)
  then show "length (filter P xs) = length xs" by simp
qed

lemma child_stats_fully_done:
  "(0 < fst (select_child_stats p t) \<and> Some (fst (select_child_stats p t)) = snd (select_child_stats p t))
   \<longleftrightarrow> fully_done t p"
proof -
  let ?cs = "filter (\<lambda>r. parent_id r = Some p) t"
  have "(0 < length ?cs \<and> Some (length ?cs) = (if ?cs = [] then None else Some (length (filter (\<lambda>r. status r = Done) ?cs))))
        \<longleftrightarrow> ?cs \<noteq> [] \<and> length (filter (\<lambda>r. status r = Done) ?cs) = length ?cs"
    by auto
  also have "\<dots> \<longleftrightarrow> ?cs \<noteq> [] \<and> (\<forall>r \<in> set ?cs. status r = Done)"
    by (simp only: length_filter_all)
  also have "\<dots> \<longleftrightarrow> fully_done t p"
    by (auto simp: fully_done_def filter_empty_conv)
  finally show ?thesis by (simp add: select_child_stats_def Let_def)
qed

lemma autoCompleteParent_step:
  assumes "io_budget w = None"
  shows "autoCompleteParent now (Some c) w =
     (case parent_of (tasks w) c of
        None \<Rightarrow> Some (Inr (), w)
      | Some p \<Rightarrow>
          if p = [] then Some (Inr (), w)
          else if fully_done (tasks w) p
               then autoCompleteParent now (Some p) (w\<lparr>tasks := mark_done now {p} (tasks w)\<rparr>)
               else Some (Inr (), w))"
proof -
  have q1: "query (\<lambda>t. map_option parent_id (select_by_id (Some c) t)) w
            = (Inr (map_option parent_id (select_by_id (Some c) (tasks w))), w)"
    using assms by (rule query_no_faults)
  have q2: "query (select_child_stats p) w = (Inr (select_child_stats p (tasks w)), w)" for p
    using assms by (rule query_no_faults)
  have e: "exec (\<lambda>t. Inr (sql_update_status Done now (Some p) t)) w
           = (Inr (), w\<lparr>tasks := mark_done now {p} (tasks w)\<rparr>)" for p
    using assms by (simp add: exec_no_faults sql_update_status_mark)
  have unfold: "autoCompleteParent now (Some c) w =
     (case parent_of (tasks w) c of
        None \<Rightarrow> Some (Inr (), w)
      | Some parentId \<Rightarrow>
          if \<not> truthy (Some parentId) then Some (Inr (), w)
          else (case query (select_child_stats parentId) w of
                    (Inl e, w2) \<Rightarrow> Some (Inl e, w2)
                  | (Inr stats, w2) \<Rightarrow>
                      if fst stats > 0 \<and> Some (fst stats) = snd stats
                      then
                        (case exec (\<lambda>t. Inr (sql_update_status Done now (Some parentId) t)) w2 of
                           (Inl e, w3) \<Rightarrow> Some (Inl e, w3)
                         | (Inr u, w3) \<Rightarrow> autoCompleteParent now (Some parentId) w3)
                      else Some (Inr (), w2)))"
    by (subst autoCompleteParent.simps)
       (simp only: q1 prod.case sum.case select_parent_is_parent_of)
  show ?thesis
  proof (cases "parent_of (tasks w) c")
    case None
    then show ?thesis unfolding unfold by simp
  next
    case (Some p)
    then show ?thesis unfolding unfold
      by (simp add: q2 e child_stats_fully_done truthy_def)
  qed
qed

lemma autoCompleteParent_propagates:
  assumes ac: "acyclic R" and fin: "finite R" and b: "io_budget w = None"
  shows "parent_rel t = R \<Longrightarrow> Some [] \<notin> parent_id ` set t \<Longrightarrow>
         \<exists>M. M \<subseteq> {a. (c, a) \<in> R\<^sup>+}
           \<and> autoCompleteParent now (Some c) (w\<lparr>tasks := t\<rparr>) = Some (Inr (), w\<lparr>tasks := mark_done now M t\<rparr>)
           \<and> propagated now t (parent_of t c) (mark_done now M t)"
proof (induction c arbitrary: t rule: wf_induct_rule[OF finite_acyclic_wf_converse[OF fin ac]])
  case (1 c)
  let ?w = "w\<lparr>tasks := t\<rparr>"
  have bw: "io_budget ?w = None" using b by simp
  note step = autoCompleteParent_step[OF bw, of now c, simplified]
  show ?case
  proof (cases "parent_of t c")
    case None
    then have "autoCompleteParent now (Some c) ?w = Some (Inr (), w\<lparr>tasks := mark_done now {} t\<rparr>)"
      using step by (simp add: mark_done_empty)
    moreover have "propagated now t (parent_of t c) (mark_done now {} t)"
      using None by (simp add: mark_done_empty propagated.at_root)
    ultimately show ?thesis by blast
  next
    case (Some p)
    then have cp: "(c, p) \<in> R" using parent_of_Some "1.prems"(1) by blast
    then have "(c, p) \<in> parent_rel t" using "1.prems"(1) by simp
    then obtain r where "r \<in> set t" "parent_id r = Some p"
      by (auto simp: parent_rel_iff)
    then have "Some p \<in> parent_id ` set t"
      by (metis imageI)
    then have pne: "p \<noteq> []" using "1.prems"(2) by auto
    show ?thesis
    proof (cases "fully_done t p")
      case False
      then have "autoCompleteParent now (Some c) ?w = Some (Inr (), w\<lparr>tasks := mark_done now {} t\<rparr>)"
        using step Some pne by (simp add: mark_done_empty)
      moreover have "propagated now t (parent_of t c) (mark_done now {} t)"
        using Some False by (simp add: mark_done_empty propagated.not_fully_done)
      ultimately show ?thesis by blast
    next
      case True
      let ?t2 = "mark_done now {p} t"
      have s: "autoCompleteParent now (Some c) ?w = autoCompleteParent now (Some p) (w\<lparr>tasks := ?t2\<rparr>)"
        using step Some pne True by simp
      have "(p, c) \<in> R\<inverse>" using cp by simp
      moreover have "parent_rel ?t2 = R" using "1.prems"(1) by (simp add: parent_rel_mark_done)
      moreover have "Some [] \<notin> parent_id ` set ?t2"
        using "1.prems"(2) by (simp add: parent_ids_mark_done)
      ultimately obtain M where M: "M \<subseteq> {a. (p, a) \<in> R\<^sup>+}"
        "autoCompleteParent now (Some p) (w\<lparr>tasks := ?t2\<rparr>) = Some (Inr (), w\<lparr>tasks := mark_done now M ?t2\<rparr>)"
        "propagated now ?t2 (parent_of ?t2 p) (mark_done now M ?t2)"
        using "1.IH"[of p ?t2] by blast
      have m2: "mark_done now M ?t2 = mark_done now (M \<union> {p}) t" by (rule mark_done_twice)
      have "M \<union> {p} \<subseteq> {a. (c, a) \<in> R\<^sup>+}"
        using M(1) cp by (auto intro: trancl_into_trancl2)
      moreover have "autoCompleteParent now (Some c) ?w = Some (Inr (), w\<lparr>tasks := mark_done now (M \<union> {p}) t\<rparr>)"
        using s M(2) m2 by simp
      moreover have "propagated now t (parent_of t c) (mark_done now (M \<union> {p}) t)"
        unfolding Some using True M(3) unfolding m2 parent_of_mark_done
        by (rule propagated.mark)
      ultimately show ?thesis by blast
    qed
  qed
qed

lemma find_unique_row:
  "distinct (map row_id t) \<Longrightarrow> r \<in> set t \<Longrightarrow> find (\<lambda>x. row_id x = row_id r) t = Some r"
  by (induction t) (auto simp: image_iff)

lemma sibling_not_ancestor:
  assumes "acyclic (parent_rel t)" and "distinct (map row_id t)"
    and "s \<in> set t" and "parent_id s = parent_of t i"
  shows "(i, row_id s) \<notin> (parent_rel t)\<^sup>+"
proof
  assume "(i, row_id s) \<in> (parent_rel t)\<^sup>+"
  then obtain z where z: "(i, z) \<in> parent_rel t" "(z, row_id s) \<in> (parent_rel t)\<^sup>*"
    by (auto dest: tranclD)
  from z(1) obtain r where r: "r \<in> set t" "row_id r = i" "parent_id r = Some z"
    by (auto simp: parent_rel_iff)
  have "find (\<lambda>x. row_id x = i) t = Some r"
    using find_unique_row[OF assms(2) r(1)] r(2) by simp
  then have "parent_of t i = Some z" using r(3) by (simp add: parent_of_def)
  then have "(row_id s, z) \<in> parent_rel t"
    using assms(3,4) by (auto simp: parent_rel_iff)
  then have "(row_id s, row_id s) \<in> (parent_rel t)\<^sup>+"
    using z(2) by (rule rtrancl_into_trancl2)
  then show False using assms(1) by (auto simp: acyclic_def)
qed

lemma mark_done_mem:
  "r \<in> set (mark_done now M t)
   \<longleftrightarrow> (\<exists>r0 \<in> set t. r = (if row_id r0 \<in> M then r0\<lparr>status := Done, updated_at := now\<rparr> else r0))"
  by (simp only: mark_done_def set_map image_iff)

text \<open>
  C3: on a table whose parent relation is acyclic, with distinct ids and no \<open>parent_id\<close>
  that is the empty string, and a working storage, \<^verbatim>\<open>completeTask(i)\<close> returns. It marks \<open>i\<close> done
  and then walks upward from the parent of \<open>i\<close> as \<open>propagated\<close> says: an ancestor with
  a child and all children done is marked and the walk goes on to its parent; it stops at
  the first ancestor that is not fully done and above a root. The rows it changes are
  \<open>i\<close> and a set \<open>M\<close> of proper ancestors of \<open>i\<close>, and what changes in them is the status
  and the update time; the siblings of \<open>i\<close> are as they were.
\<close>

theorem completeTask_propagates:
  assumes "acyclic (parent_rel (tasks w))"
    and "distinct (map row_id (tasks w))"
    and "Some [] \<notin> parent_id ` set (tasks w)"
    and "io_budget w = None"
  shows "\<exists>M. M \<subseteq> {a. (i, a) \<in> (parent_rel (tasks w))\<^sup>+}
           \<and> completeTask now (Some i) w = Some (Inr (), w\<lparr>tasks := mark_done now (insert i M) (tasks w)\<rparr>)
           \<and> propagated now (mark_done now {i} (tasks w)) (parent_of (tasks w) i)
                (mark_done now (insert i M) (tasks w))
           \<and> (\<forall>r \<in> set (mark_done now (insert i M) (tasks w)). row_id r = i \<longrightarrow> status r = Done)
           \<and> (\<forall>s \<in> set (tasks w). row_id s \<noteq> i \<and> parent_id s = parent_of (tasks w) i
                 \<longrightarrow> s \<in> set (mark_done now (insert i M) (tasks w)))"
proof -
  let ?t = "tasks w"
  let ?t1 = "mark_done now {i} ?t"
  have c: "completeTask now (Some i) w = autoCompleteParent now (Some i) (w\<lparr>tasks := ?t1\<rparr>)"
    using assms(4) by (simp add: completeTask_def exec_no_faults sql_update_status_mark)
  have "parent_rel ?t1 = parent_rel ?t" by (rule parent_rel_mark_done)
  moreover have "Some [] \<notin> parent_id ` set ?t1"
    using assms(3) by (simp add: parent_ids_mark_done)
  ultimately obtain M where M: "M \<subseteq> {a. (i, a) \<in> (parent_rel ?t)\<^sup>+}"
    "autoCompleteParent now (Some i) (w\<lparr>tasks := ?t1\<rparr>) = Some (Inr (), w\<lparr>tasks := mark_done now M ?t1\<rparr>)"
    "propagated now ?t1 (parent_of ?t1 i) (mark_done now M ?t1)"
    using autoCompleteParent_propagates[OF assms(1) finite_parent_rel assms(4), of ?t1 i now]
    by blast
  have m: "mark_done now M ?t1 = mark_done now (insert i M) ?t"
    by (simp add: mark_done_twice)
  have 1: "completeTask now (Some i) w = Some (Inr (), w\<lparr>tasks := mark_done now (insert i M) ?t\<rparr>)"
    using c M(2) m by simp
  have 2: "propagated now ?t1 (parent_of ?t i) (mark_done now (insert i M) ?t)"
    using M(3) unfolding m parent_of_mark_done .
  have 3: "\<forall>r \<in> set (mark_done now (insert i M) ?t). row_id r = i \<longrightarrow> status r = Done"
  proof (intro ballI impI)
    fix r assume "r \<in> set (mark_done now (insert i M) ?t)" and i: "row_id r = i"
    then obtain r0 where r0: "r0 \<in> set ?t"
      "r = (if row_id r0 \<in> insert i M then r0\<lparr>status := Done, updated_at := now\<rparr> else r0)"
      unfolding mark_done_mem by blast
    show "status r = Done"
    proof (cases "row_id r0 \<in> insert i M")
      case True
      then show ?thesis using r0(2) by simp
    next
      case False
      then have "r = r0" using r0(2) by simp
      then show ?thesis using False i by simp
    qed
  qed
  have 4: "s \<in> set (mark_done now (insert i M) ?t)"
    if s: "s \<in> set ?t" "row_id s \<noteq> i \<and> parent_id s = parent_of ?t i" for s
  proof -
    have "(i, row_id s) \<notin> (parent_rel ?t)\<^sup>+"
      using sibling_not_ancestor[OF assms(1,2) s(1)] s(2) by simp
    then have "row_id s \<notin> insert i M" using M(1) s(2) by auto
    then have "s = (if row_id s \<in> insert i M then s\<lparr>status := Done, updated_at := now\<rparr> else s)"
      by simp
    then show ?thesis using s(1) unfolding mark_done_mem by (rule rev_bexI[rotated])
  qed
  show ?thesis using M(1) 1 2 3 4 by blast
qed

theorem completeTask_propagates_witness:
  "acyclic (parent_rel (tasks chain)) \<and> distinct (map row_id (tasks chain))
   \<and> Some [] \<notin> parent_id ` set (tasks chain) \<and> io_budget chain = None
   \<and> completeTask ''09:09'' (Some ''01C'') chain =
       Some (Inr (), chain\<lparr>tasks :=
         [\<lparr>row_id = ''01G'', title = ''Ship release'', status = Todo, parent_id = None,
            position = 0, created_at = ''09:00'', updated_at = ''09:00''\<rparr>,
          \<lparr>row_id = ''01P'', title = ''Write tests'', status = Done, parent_id = Some ''01G'',
            position = 0, created_at = ''09:01'', updated_at = ''09:09''\<rparr>,
          \<lparr>row_id = ''01U'', title = ''Fix bug'', status = Todo, parent_id = Some ''01G'',
            position = 1, created_at = ''09:02'', updated_at = ''09:02''\<rparr>,
          \<lparr>row_id = ''01C'', title = ''Unit tests'', status = Done, parent_id = Some ''01P'',
            position = 0, created_at = ''09:03'', updated_at = ''09:09''\<rparr>]\<rparr>)
   \<and> (\<exists>M. M \<subseteq> {a. (''01C'', a) \<in> (parent_rel (tasks chain))\<^sup>+}
          \<and> completeTask ''09:09'' (Some ''01C'') chain
              = Some (Inr (), chain\<lparr>tasks := mark_done ''09:09'' (insert ''01C'' M) (tasks chain)\<rparr>)
          \<and> propagated ''09:09'' (mark_done ''09:09'' {''01C''} (tasks chain))
                (parent_of (tasks chain) ''01C'')
                (mark_done ''09:09'' (insert ''01C'' M) (tasks chain)))"
proof -
  have h1: "acyclic (parent_rel (tasks chain))"
    by (simp add: parent_rel_chain rtrancl_insert acyclic_empty)
  have h2: "distinct (map row_id (tasks chain))"
    and h3: "Some [] \<notin> parent_id ` set (tasks chain)"
    and h4: "io_budget chain = None"
    by (simp_all add: chain_def)
  have e: "completeTask ''09:09'' (Some ''01C'') chain =
       Some (Inr (), chain\<lparr>tasks :=
         [\<lparr>row_id = ''01G'', title = ''Ship release'', status = Todo, parent_id = None,
            position = 0, created_at = ''09:00'', updated_at = ''09:00''\<rparr>,
          \<lparr>row_id = ''01P'', title = ''Write tests'', status = Done, parent_id = Some ''01G'',
            position = 0, created_at = ''09:01'', updated_at = ''09:09''\<rparr>,
          \<lparr>row_id = ''01U'', title = ''Fix bug'', status = Todo, parent_id = Some ''01G'',
            position = 1, created_at = ''09:02'', updated_at = ''09:02''\<rparr>,
          \<lparr>row_id = ''01C'', title = ''Unit tests'', status = Done, parent_id = Some ''01P'',
            position = 0, created_at = ''09:03'', updated_at = ''09:09''\<rparr>]\<rparr>)"
    by (simp add: chain_def run_defs autoCompleteParent.simps)
  from completeTask_propagates[OF h1 h2 h3 h4, of "''01C''" "''09:09''"]
  obtain M where "M \<subseteq> {a. (''01C'', a) \<in> (parent_rel (tasks chain))\<^sup>+}"
    "completeTask ''09:09'' (Some ''01C'') chain
              = Some (Inr (), chain\<lparr>tasks := mark_done ''09:09'' (insert ''01C'' M) (tasks chain)\<rparr>)"
    "propagated ''09:09'' (mark_done ''09:09'' {''01C''} (tasks chain))
                (parent_of (tasks chain) ''01C'')
                (mark_done ''09:09'' (insert ''01C'' M) (tasks chain))"
    by (elim exE conjE)
  then have "\<exists>M. M \<subseteq> {a. (''01C'', a) \<in> (parent_rel (tasks chain))\<^sup>+}
          \<and> completeTask ''09:09'' (Some ''01C'') chain
              = Some (Inr (), chain\<lparr>tasks := mark_done ''09:09'' (insert ''01C'' M) (tasks chain)\<rparr>)
          \<and> propagated ''09:09'' (mark_done ''09:09'' {''01C''} (tasks chain))
                (parent_of (tasks chain) ''01C'')
                (mark_done ''09:09'' (insert ''01C'' M) (tasks chain))"
    by (intro exI[of _ M] conjI)
  then show ?thesis using h1 h2 h3 h4 e by (intro conjI)
qed

subsection \<open>Batches\<close>

lemma addTask_Inr_id:
  "addTask new_id now ttl p w = (Inr task, w') \<Longrightarrow> task_id task = new_id"
  by (auto simp: addTask_def and_then_def result_def split: prod.splits sum.splits)

lemma applyLoop_append:
  "applyLoop gen now ops1 n m w = Some (Inr (), w1) \<Longrightarrow>
   applyLoop gen now (ops1 @ ops2) n m w
     = applyLoop gen now ops2 (n + count_adds ops1) (idMap_after gen ops1 n m) w1"
proof (induction ops1 arbitrary: n m w)
  case Nil
  then show ?case by simp
next
  case (Cons op ops1)
  show ?case
  proof (cases op)
    case (Add op_id op_title op_parent)
    obtain r w2 where res: "addTask (gen n) now op_title (resolveId m op_parent) w = (r, w2)"
      by (cases "addTask (gen n) now op_title (resolveId m op_parent) w")
    show ?thesis
    proof (cases r)
      case (Inl e)
      then show ?thesis using Cons.prems Add res by simp
    next
      case (Inr task)
      have tid: "task_id task = gen n" using res Inr addTask_Inr_id by blast
      let ?m' = "case op_id of None \<Rightarrow> m | Some x \<Rightarrow> if x \<noteq> [] then m(x \<mapsto> gen n) else m"
      have m': "(case op_id of None \<Rightarrow> m
                 | Some x \<Rightarrow> if truthy (Some x) then m(x \<mapsto> task_id task) else m) = ?m'"
        by (simp add: tid truthy_def split: option.splits)
      have "applyLoop gen now ops1 (Suc n) ?m' w2 = Some (Inr (), w1)"
        using Cons.prems Add res Inr m' by simp
      from Cons.IH[OF this]
      show ?thesis using Add res Inr m' by simp
    qed
  next
    case (Delete taskId)
    obtain r w2 where res: "deleteTask (resolveId m (Some taskId)) w = (r, w2)"
      by (cases "deleteTask (resolveId m (Some taskId)) w")
    show ?thesis
    proof (cases r)
      case (Inl e)
      then show ?thesis using Cons.prems Delete res by simp
    next
      case (Inr u)
      then have "applyLoop gen now ops1 n m w2 = Some (Inr (), w1)"
        using Cons.prems Delete res by simp
      from Cons.IH[OF this] show ?thesis using Delete res Inr by simp
    qed
  next
    case (Move taskId newParentId)
    obtain r w2 where
      res: "moveTask now (resolveId m (Some taskId)) (resolveId m newParentId) w = (r, w2)"
      by (cases "moveTask now (resolveId m (Some taskId)) (resolveId m newParentId) w")
    show ?thesis
    proof (cases r)
      case (Inl e)
      then show ?thesis using Cons.prems Move res by simp
    next
      case (Inr u)
      then have "applyLoop gen now ops1 n m w2 = Some (Inr (), w1)"
        using Cons.prems Move res by simp
      from Cons.IH[OF this] show ?thesis using Move res Inr by simp
    qed
  next
    case (Update taskId op_title)
    obtain r w2 where
      res: "updateTask now (resolveId m (Some taskId)) (Some op_title) None w = (r, w2)"
      by (cases "updateTask now (resolveId m (Some taskId)) (Some op_title) None w")
    show ?thesis
    proof (cases r)
      case (Inl e)
      then show ?thesis using Cons.prems Update res by simp
    next
      case (Inr u)
      then have "applyLoop gen now ops1 n m w2 = Some (Inr (), w1)"
        using Cons.prems Update res by simp
      from Cons.IH[OF this] show ?thesis using Update res Inr by simp
    qed
  next
    case (DoneOp taskId)
    from Cons.prems DoneOp obtain r w2 where
      res: "completeTask now (resolveId m (Some taskId)) w = Some (r, w2)"
      by (auto split: option.splits)
    show ?thesis
    proof (cases r)
      case (Inl e)
      then show ?thesis using Cons.prems DoneOp res by simp
    next
      case (Inr u)
      then have "applyLoop gen now ops1 n m w2 = Some (Inr (), w1)"
        using Cons.prems DoneOp res by simp
      from Cons.IH[OF this] show ?thesis using DoneOp res Inr by simp
    qed
  qed
qed

lemma two_adds:
  assumes "io_budget w = None" and "tmp \<noteq> []"
    and "gen 0 \<notin> set (map row_id (tasks w))" and "gen (Suc 0) \<notin> set (map row_id (tasks w))"
    and "gen 0 \<noteq> gen (Suc 0)"
  shows "\<exists>rowA rowB.
           applyOperations gen now [Add (Some tmp) title_a None, Add None title_b (Some tmp)] w
             = Some (Inr (), w\<lparr>tasks := tasks w @ [rowA, rowB]\<rparr>)
           \<and> row_id rowA = gen 0 \<and> title rowA = title_a \<and> parent_id rowA = None
           \<and> row_id rowB = gen (Suc 0) \<and> title rowB = title_b \<and> parent_id rowB = Some (gen 0)"
proof -
  define rowA where "rowA = \<lparr>row_id = gen 0, title = title_a, status = Todo, parent_id = None,
      position = select_next_position None (tasks w), created_at = now, updated_at = now\<rparr>"
  define w1 where "w1 = w\<lparr>tasks := tasks w @ [rowA]\<rparr>"
  define rowB where "rowB = \<lparr>row_id = gen (Suc 0), title = title_b, status = Todo,
      parent_id = Some (gen 0),
      position = select_next_position (Some (gen 0)) (tasks w1), created_at = now, updated_at = now\<rparr>"
  have b1: "io_budget w1 = None" using assms(1) by (simp add: w1_def)
  have insA: "sql_insert rowA (tasks w) = Inr (tasks w @ [rowA])"
    using assms(3) by (simp add: sql_insert_def rowA_def)
  have addA: "addTask (gen 0) now title_a None w =
      (Inr \<lparr>task_id = gen 0, task_title = title_a, task_status = Todo, task_parentId = None,
            task_position = select_next_position None (tasks w)\<rparr>, w1)"
    using assms(1) insA
    by (simp add: addTask_def and_then_def query_no_faults exec_no_faults result_def
        rowA_def[symmetric] w1_def)
  have insB: "sql_insert rowB (tasks w1) = Inr (tasks w1 @ [rowB])"
    using assms(3,4,5) by (simp add: sql_insert_def rowB_def w1_def rowA_def)
  have addB: "addTask (gen (Suc 0)) now title_b (Some (gen 0)) w1 =
      (Inr \<lparr>task_id = gen (Suc 0), task_title = title_b, task_status = Todo,
            task_parentId = Some (gen 0),
            task_position = select_next_position (Some (gen 0)) (tasks w1)\<rparr>,
       w1\<lparr>tasks := tasks w1 @ [rowB]\<rparr>)"
    using b1 insB
    by (simp add: addTask_def and_then_def query_no_faults exec_no_faults result_def
        rowB_def[symmetric])
  have r1: "resolveId Map.empty None = None" by (rule resolveId_falsy)
  have r2: "resolveId (Map.empty(tmp \<mapsto> gen 0)) (Some tmp) = Some (gen 0)"
    using assms(2) by (simp add: resolveId_nonempty)
  have "applyOperations gen now [Add (Some tmp) title_a None, Add None title_b (Some tmp)] w
        = Some (Inr (), w1\<lparr>tasks := tasks w1 @ [rowB]\<rparr>)"
    using assms(2) by (simp add: applyOperations_def r1 addA r2 addB truthy_def commit_or_rollback_def)
  moreover have "w1\<lparr>tasks := tasks w1 @ [rowB]\<rparr> = w\<lparr>tasks := tasks w @ [rowA, rowB]\<rparr>"
    by (simp add: w1_def)
  ultimately have "applyOperations gen now [Add (Some tmp) title_a None, Add None title_b (Some tmp)] w
        = Some (Inr (), w\<lparr>tasks := tasks w @ [rowA, rowB]\<rparr>)"
    by simp
  moreover have "row_id rowA = gen 0 \<and> title rowA = title_a \<and> parent_id rowA = None
           \<and> row_id rowB = gen (Suc 0) \<and> title rowB = title_b \<and> parent_id rowB = Some (gen 0)"
    by (simp add: rowA_def rowB_def)
  ultimately show ?thesis by blast
qed

text \<open>
  C7, as the code has it. \<^verbatim>\<open>resolveId\<close> takes null, an absent id and the empty string to
  null, and any other id to what the map holds for it, or to itself when the map holds
  nothing. Every operation of the loop runs on the ids so resolved (the five equations).
  The map is the one the \<^verbatim>\<open>add\<close> operations before have built: when a prefix
  of a batch has run, the rest runs with \<open>idMap_after\<close> of the prefix, which binds every
  non-empty id of an \<^verbatim>\<open>add\<close> to the id generated for its task. On a working storage
  and with two fresh, different ids generated, the batch of an \<^verbatim>\<open>add\<close> with a temporary
  id and an \<^verbatim>\<open>add\<close> with that id as parent appends two rows, the second with the id of
  the first as its parent.
\<close>

theorem applyOperations_resolves_ids:
  "resolveId m None = None \<and> resolveId m (Some []) = None
   \<and> (x \<noteq> [] \<longrightarrow> resolveId m (Some x) = Some (case m x of None \<Rightarrow> x | Some real \<Rightarrow> real))
   \<and> applyLoop gen now (Add op_id op_title op_parent # ops) n m w =
       (case addTask (gen n) now op_title (resolveId m op_parent) w of
          (Inl e, w') \<Rightarrow> Some (Inl e, w')
        | (Inr task, w') \<Rightarrow>
            applyLoop gen now ops (Suc n)
              (case op_id of None \<Rightarrow> m | Some t \<Rightarrow> if t \<noteq> [] then m(t \<mapsto> task_id task) else m) w')
   \<and> applyLoop gen now (Delete taskId # ops) n m w =
       (case deleteTask (resolveId m (Some taskId)) w of
          (Inl e, w') \<Rightarrow> Some (Inl e, w') | (Inr u, w') \<Rightarrow> applyLoop gen now ops n m w')
   \<and> applyLoop gen now (Move taskId newParentId # ops) n m w =
       (case moveTask now (resolveId m (Some taskId)) (resolveId m newParentId) w of
          (Inl e, w') \<Rightarrow> Some (Inl e, w') | (Inr u, w') \<Rightarrow> applyLoop gen now ops n m w')
   \<and> applyLoop gen now (Update taskId op_title # ops) n m w =
       (case updateTask now (resolveId m (Some taskId)) (Some op_title) None w of
          (Inl e, w') \<Rightarrow> Some (Inl e, w') | (Inr u, w') \<Rightarrow> applyLoop gen now ops n m w')
   \<and> applyLoop gen now (DoneOp taskId # ops) n m w =
       (case completeTask now (resolveId m (Some taskId)) w of
          None \<Rightarrow> None
        | Some (Inl e, w') \<Rightarrow> Some (Inl e, w')
        | Some (Inr u, w') \<Rightarrow> applyLoop gen now ops n m w')
   \<and> (applyLoop gen now ops1 n m w = Some (Inr (), w1) \<longrightarrow>
        applyLoop gen now (ops1 @ ops2) n m w
          = applyLoop gen now ops2 (n + count_adds ops1) (idMap_after gen ops1 n m) w1)
   \<and> (io_budget w = None \<and> tmp \<noteq> []
        \<and> gen 0 \<notin> set (map row_id (tasks w)) \<and> gen (Suc 0) \<notin> set (map row_id (tasks w))
        \<and> gen 0 \<noteq> gen (Suc 0) \<longrightarrow>
        (\<exists>rowA rowB.
           applyOperations gen now [Add (Some tmp) title_a None, Add None title_b (Some tmp)] w
             = Some (Inr (), w\<lparr>tasks := tasks w @ [rowA, rowB]\<rparr>)
           \<and> row_id rowA = gen 0 \<and> title rowA = title_a \<and> parent_id rowA = None
           \<and> row_id rowB = gen (Suc 0) \<and> title rowB = title_b \<and> parent_id rowB = Some (gen 0)))"
proof (intro conjI impI)
  show "resolveId m None = None" "resolveId m (Some []) = None"
    by (rule resolveId_falsy)+
  show "resolveId m (Some x) = Some (case m x of None \<Rightarrow> x | Some real \<Rightarrow> real)" if "x \<noteq> []"
    using that by (rule resolveId_nonempty)
  show "applyLoop gen now (Add op_id op_title op_parent # ops) n m w =
       (case addTask (gen n) now op_title (resolveId m op_parent) w of
          (Inl e, w') \<Rightarrow> Some (Inl e, w')
        | (Inr task, w') \<Rightarrow>
            applyLoop gen now ops (Suc n)
              (case op_id of None \<Rightarrow> m | Some t \<Rightarrow> if t \<noteq> [] then m(t \<mapsto> task_id task) else m) w')"
  proof (cases "addTask (gen n) now op_title (resolveId m op_parent) w")
    case (Pair r w')
    have eq: "(case op_id of None \<Rightarrow> m | Some t \<Rightarrow> if truthy (Some t) then m(t \<mapsto> tid) else m)
              = (case op_id of None \<Rightarrow> m | Some t \<Rightarrow> if t \<noteq> [] then m(t \<mapsto> tid) else m)" for tid
      by (cases op_id) (simp_all add: truthy_def)
    show ?thesis by (cases r) (simp_all add: Pair eq)
  qed
  show "applyLoop gen now (Delete taskId # ops) n m w =
       (case deleteTask (resolveId m (Some taskId)) w of
          (Inl e, w') \<Rightarrow> Some (Inl e, w') | (Inr u, w') \<Rightarrow> applyLoop gen now ops n m w')"
    by simp
  show "applyLoop gen now (Move taskId newParentId # ops) n m w =
       (case moveTask now (resolveId m (Some taskId)) (resolveId m newParentId) w of
          (Inl e, w') \<Rightarrow> Some (Inl e, w') | (Inr u, w') \<Rightarrow> applyLoop gen now ops n m w')"
    by simp
  show "applyLoop gen now (Update taskId op_title # ops) n m w =
       (case updateTask now (resolveId m (Some taskId)) (Some op_title) None w of
          (Inl e, w') \<Rightarrow> Some (Inl e, w') | (Inr u, w') \<Rightarrow> applyLoop gen now ops n m w')"
    by simp
  show "applyLoop gen now (DoneOp taskId # ops) n m w =
       (case completeTask now (resolveId m (Some taskId)) w of
          None \<Rightarrow> None
        | Some (Inl e, w') \<Rightarrow> Some (Inl e, w')
        | Some (Inr u, w') \<Rightarrow> applyLoop gen now ops n m w')"
    by simp
  show "applyLoop gen now (ops1 @ ops2) n m w
          = applyLoop gen now ops2 (n + count_adds ops1) (idMap_after gen ops1 n m) w1"
    if "applyLoop gen now ops1 n m w = Some (Inr (), w1)"
    using that by (rule applyLoop_append)
  show "\<exists>rowA rowB.
           applyOperations gen now [Add (Some tmp) title_a None, Add None title_b (Some tmp)] w
             = Some (Inr (), w\<lparr>tasks := tasks w @ [rowA, rowB]\<rparr>)
           \<and> row_id rowA = gen 0 \<and> title rowA = title_a \<and> parent_id rowA = None
           \<and> row_id rowB = gen (Suc 0) \<and> title rowB = title_b \<and> parent_id rowB = Some (gen 0)"
    if "io_budget w = None \<and> tmp \<noteq> []
        \<and> gen 0 \<notin> set (map row_id (tasks w)) \<and> gen (Suc 0) \<notin> set (map row_id (tasks w))
        \<and> gen 0 \<noteq> gen (Suc 0)"
    using that by (intro two_adds) simp_all
qed

theorem applyOperations_resolves_ids_witness:
  "io_budget empty_world = None
   \<and> resolveId (Map.empty(''temp_1'' \<mapsto> ''01A'')) (Some ''temp_1'') = Some ''01A''
   \<and> resolveId (Map.empty(''temp_1'' \<mapsto> ''01A'')) (Some ''01Z'') = Some ''01Z''
   \<and> applyLoop (\<lambda>k. if k = 0 then ''01A'' else ''01B'') ''09:05''
         [Add (Some ''temp_1'') ''A'' None] 0 Map.empty empty_world
       = Some (Inr (), empty_world\<lparr>tasks :=
           [\<lparr>row_id = ''01A'', title = ''A'', status = Todo, parent_id = None, position = 0,
              created_at = ''09:05'', updated_at = ''09:05''\<rparr>]\<rparr>)
   \<and> applyLoop (\<lambda>k. if k = 0 then ''01A'' else ''01B'') ''09:05''
         ([Add (Some ''temp_1'') ''A'' None] @ [Add None ''B'' (Some ''temp_1'')]) 0 Map.empty empty_world
       = applyLoop (\<lambda>k. if k = 0 then ''01A'' else ''01B'') ''09:05''
           [Add None ''B'' (Some ''temp_1'')] 1 (Map.empty(''temp_1'' \<mapsto> ''01A''))
           (empty_world\<lparr>tasks :=
             [\<lparr>row_id = ''01A'', title = ''A'', status = Todo, parent_id = None, position = 0,
                created_at = ''09:05'', updated_at = ''09:05''\<rparr>]\<rparr>)
   \<and> (\<exists>rowA rowB.
         applyOperations (\<lambda>k. if k = 0 then ''01A'' else ''01B'') ''09:05''
            [Add (Some ''temp_1'') ''A'' None, Add None ''B'' (Some ''temp_1'')] empty_world
           = Some (Inr (), empty_world\<lparr>tasks := tasks empty_world @ [rowA, rowB]\<rparr>)
         \<and> row_id rowA = ''01A'' \<and> parent_id rowB = Some ''01A'')"
proof -
  let ?gen = "\<lambda>k::nat. if k = 0 then ''01A'' else ''01B''"
  let ?m = "Map.empty(''temp_1'' \<mapsto> ''01A'')"
  let ?wA = "empty_world\<lparr>tasks :=
           [\<lparr>row_id = ''01A'', title = ''A'', status = Todo, parent_id = None, position = 0,
              created_at = ''09:05'', updated_at = ''09:05''\<rparr>]\<rparr>"
  have b: "io_budget empty_world = None" by (simp add: empty_world_def)
  have h: "io_budget empty_world = None \<and> ''temp_1'' \<noteq> []
        \<and> ?gen 0 \<notin> set (map row_id (tasks empty_world))
        \<and> ?gen (Suc 0) \<notin> set (map row_id (tasks empty_world))
        \<and> ?gen 0 \<noteq> ?gen (Suc 0)"
    by (simp add: empty_world_def)
  have p: "applyLoop ?gen ''09:05'' [Add (Some ''temp_1'') ''A'' None] 0 Map.empty empty_world
           = Some (Inr (), ?wA)"
    by (simp add: empty_world_def run_defs resolveId_def)
  have im: "idMap_after ?gen [Add (Some ''temp_1'') ''A'' None] 0 Map.empty = ?m"
    by simp
  note T = applyOperations_resolves_ids[where m = ?m and x = "''temp_1''" and gen = ?gen
      and now = "''09:05''" and w = empty_world and tmp = "''temp_1''"
      and title_a = "''A''" and title_b = "''B''"]
  note U = applyOperations_resolves_ids[where m = ?m and x = "''01Z''"]
  note V = applyOperations_resolves_ids[where m = Map.empty and gen = ?gen and now = "''09:05''"
      and w = empty_world and n = 0 and ?ops1.0 = "[Add (Some ''temp_1'') ''A'' None]"
      and ?ops2.0 = "[Add None ''B'' (Some ''temp_1'')]" and ?w1.0 = ?wA]
  from T[THEN conjunct2, THEN conjunct2, THEN conjunct1]
  have 1: "resolveId ?m (Some ''temp_1'') = Some ''01A''" by simp
  from U[THEN conjunct2, THEN conjunct2, THEN conjunct1]
  have 2: "resolveId ?m (Some ''01Z'') = Some ''01Z''" by simp
  from V[THEN conjunct2, THEN conjunct2, THEN conjunct2, THEN conjunct2, THEN conjunct2,
      THEN conjunct2, THEN conjunct2, THEN conjunct2, THEN conjunct1] p
  have "applyLoop ?gen ''09:05''
         ([Add (Some ''temp_1'') ''A'' None] @ [Add None ''B'' (Some ''temp_1'')]) 0 Map.empty empty_world
       = applyLoop ?gen ''09:05'' [Add None ''B'' (Some ''temp_1'')]
           (0 + count_adds [Add (Some ''temp_1'') ''A'' None])
           (idMap_after ?gen [Add (Some ''temp_1'') ''A'' None] 0 Map.empty) ?wA"
    by (rule mp)
  then have 3: "applyLoop ?gen ''09:05''
         ([Add (Some ''temp_1'') ''A'' None] @ [Add None ''B'' (Some ''temp_1'')]) 0 Map.empty empty_world
       = applyLoop ?gen ''09:05'' [Add None ''B'' (Some ''temp_1'')] 1 ?m ?wA"
    unfolding im by simp
  from T[THEN conjunct2, THEN conjunct2, THEN conjunct2, THEN conjunct2, THEN conjunct2,
      THEN conjunct2, THEN conjunct2, THEN conjunct2, THEN conjunct2] h have "\<exists>rowA rowB.
         applyOperations ?gen ''09:05''
            [Add (Some ''temp_1'') ''A'' None, Add None ''B'' (Some ''temp_1'')] empty_world
           = Some (Inr (), empty_world\<lparr>tasks := tasks empty_world @ [rowA, rowB]\<rparr>)
           \<and> row_id rowA = ?gen 0 \<and> title rowA = ''A'' \<and> parent_id rowA = None
           \<and> row_id rowB = ?gen (Suc 0) \<and> title rowB = ''B'' \<and> parent_id rowB = Some (?gen 0)"
    by (rule mp)
  then have 4: "\<exists>rowA rowB.
         applyOperations ?gen ''09:05''
            [Add (Some ''temp_1'') ''A'' None, Add None ''B'' (Some ''temp_1'')] empty_world
           = Some (Inr (), empty_world\<lparr>tasks := tasks empty_world @ [rowA, rowB]\<rparr>)
         \<and> row_id rowA = ''01A'' \<and> parent_id rowB = Some ''01A''"
    by (elim exE conjE) (intro exI conjI, assumption, simp_all)
  show ?thesis using b 1 2 p 3 4 by (intro conjI)
qed

text \<open>
  The empty string is an id with no mapping that is not used verbatim: as the parent of an
  \<^verbatim>\<open>add\<close> it resolves to null and the task is created at root level, where
  \<^verbatim>\<open>addTask\<close> with that parent itself fails on the foreign key.
\<close>

theorem applyOperations_empty_id_counterexample:
  "resolveId Map.empty (Some '''') = None
   \<and> applyOperations (\<lambda>k. ''01B'') ''09:05'' [Add None ''Fix bug'' (Some '''')] empty_world
       = Some (Inr (), empty_world\<lparr>tasks :=
           [\<lparr>row_id = ''01B'', title = ''Fix bug'', status = Todo, parent_id = None,
              position = 0, created_at = ''09:05'', updated_at = ''09:05''\<rparr>]\<rparr>)
   \<and> addTask ''01B'' ''09:05'' ''Fix bug'' (Some '''') empty_world
       = (Inl SQLITE_CONSTRAINT_FOREIGNKEY, empty_world)"
  by (simp add: resolveId_def applyOperations_def empty_world_def run_defs)

end
